theory Spec2Isabelle
  imports Main "HOL-Library.Word"
begin

unbundle bit_operations_syntax

section \<open>Values, errors and the catalog entities\<close>

text \<open>
  The program is \<^verbatim>\<open>lib/moddb.py\<close>. Values that come out of a JSON manifest and are
  tested for truthiness (\<^verbatim>\<open>if mod.get(field)\<close>, \<^verbatim>\<open>if self.mod.filehash\<close>) are
  modelled by \<open>pyval\<close>: JSON null / an absent attribute, a string, an integer.
\<close>

datatype pyval = PNone | PStr string | PInt int

fun truthy :: "pyval \<Rightarrow> bool" where
  "truthy PNone = False"
| "truthy (PStr s) = (s \<noteq> [])"
| "truthy (PInt i) = (i \<noteq> 0)"

text \<open>Every exception the modelled code can raise is a value.\<close>

datatype error = KeyError string | IOError string | FetchError string

text \<open>
  An entry is identified by its upsert key \<open>(name, service)\<close>; a relation edge refers to
  its owning entry by that key (the foreign key \<^verbatim>\<open>ModDependency.mod\<close>).
\<close>

type_synonym entry_key = "string \<times> nat"

record mod_entry =
  name :: string
  service :: nat
  version :: string
  filename :: string
  description :: pyval
  filehash :: pyval
  filesize :: pyval
  homepage :: pyval
  author :: pyval

section \<open>Integrity verifier: \<^verbatim>\<open>create_filehash\<close> and \<^verbatim>\<open>check_file\<close>\<close>

definition BLOCKSIZE :: nat where
  "BLOCKSIZE = 65536"

text \<open>
  The read loop of \<^verbatim>\<open>create_filehash\<close>: \<open>h\<close> is what has been fed to the hasher so
  far, \<open>buf\<close> the block just read, \<open>rest\<close> the unread remainder of the file.
\<close>

function hash_loop :: "string \<Rightarrow> string \<Rightarrow> string \<Rightarrow> string" where
  "hash_loop h buf rest =
     (if length buf > 0
      then hash_loop (h @ buf) (take BLOCKSIZE rest) (drop BLOCKSIZE rest)
      else h)"
  by pat_completeness auto
termination
  by (relation "measure (\<lambda>(h, buf, rest). length buf + length rest)")
    (auto simp: min_def)

declare hash_loop.simps [simp del]

text \<open>
  \<open>hasher\<close> stands for \<^verbatim>\<open>hashlib.sha256\<close> followed by the base64 encoding and the two
  \<^verbatim>\<open>strip\<close> calls: it maps the bytes fed to the hasher to the final ASCII digest. The
  file system is a map from paths to contents; opening a missing file raises.
\<close>

definition create_filehash ::
  "(string \<Rightarrow> string) \<Rightarrow> (string \<rightharpoonup> string) \<Rightarrow> string \<Rightarrow> error + string" where
  "create_filehash hasher fs path =
     (case fs path of
        None \<Rightarrow> Inl (IOError path)
      | Some content \<Rightarrow>
          Inr (hasher (hash_loop [] (take BLOCKSIZE content) (drop BLOCKSIZE content))))"

definition check_file ::
  "(string \<Rightarrow> string) \<Rightarrow> (string \<rightharpoonup> string) \<Rightarrow> mod_entry \<Rightarrow> string \<Rightarrow> bool
     \<Rightarrow> error + bool" where
  "check_file hasher fs m path approve_if_no_dbhash =
     (if truthy (filehash m)
      then (case create_filehash hasher fs path of
              Inl e \<Rightarrow> Inl e
            | Inr h \<Rightarrow> Inr (PStr h = filehash m))
      else Inr approve_if_no_dbhash)"

section \<open>The catalog store\<close>

text \<open>
  Modelled from the spec: the module \<^verbatim>\<open>storage\<close> (the tables \<^verbatim>\<open>ModEntry\<close>,
  \<^verbatim>\<open>ModDependency\<close>, \<^verbatim>\<open>ModService\<close> and the handle \<^verbatim>\<open>db\<close>) is imported by
  \<^verbatim>\<open>moddb.py\<close> and is not part of the source. The spec's store keeps entries under
  the unique key (name, service), relation edges as rows in store order (a delete removes
  rows, a create appends one), and services as rows with an identifier. An entry
  reference held by the program (\<^verbatim>\<open>modentry\<close>, \<^verbatim>\<open>self.mod\<close>) is the key of its row.
\<close>

record mod_dependency =
  dep_mod :: entry_key
  relation :: nat
  dependency :: string

record mod_service =
  service_id :: nat
  url :: string
  service_name :: string
  mirrors :: "string list"

record store =
  services :: "mod_service list"
  entries :: "entry_key \<rightharpoonup> mod_entry"
  dependencies :: "mod_dependency list"

definition create_entry :: "string \<Rightarrow> nat \<Rightarrow> mod_entry" where
  "create_entry n svc =
     \<lparr>name = n, service = svc, version = [], filename = [], description = PNone,
      filehash = PNone, filesize = PNone, homepage = PNone, author = PNone\<rparr>"

text \<open>
  Modelled from the spec: \<^verbatim>\<open>ModEntry.get_or_create(name=..., service=...)\<close>, the
  store's get-or-create by (name, service); a created row is in the store at once.
\<close>

definition get_or_create :: "string \<Rightarrow> nat \<Rightarrow> store \<Rightarrow> (mod_entry \<times> bool) \<times> store" where
  "get_or_create n svc st =
     (case entries st (n, svc) of
        Some m \<Rightarrow> ((m, False), st)
      | None \<Rightarrow>
          ((create_entry n svc, True),
           st\<lparr>entries := (entries st)((n, svc) \<mapsto> create_entry n svc)\<rparr>))"

text \<open>Modelled from the spec: \<^verbatim>\<open>modentry.save()\<close> writes the row of the reference.\<close>

definition save_entry :: "entry_key \<Rightarrow> mod_entry \<Rightarrow> store \<Rightarrow> store" where
  "save_entry k m st = st\<lparr>entries := (entries st)(k \<mapsto> m)\<rparr>"

text \<open>Modelled from the spec: \<^verbatim>\<open>ModDependency.delete().where(...).execute()\<close>.\<close>

definition delete_dependencies :: "entry_key \<Rightarrow> nat \<Rightarrow> store \<Rightarrow> store" where
  "delete_dependencies k rel st =
     st\<lparr>dependencies :=
          filter (\<lambda>r. \<not> (dep_mod r = k \<and> relation r = rel)) (dependencies st)\<rparr>"

text \<open>Modelled from the spec: \<^verbatim>\<open>ModDependency.create(mod=..., relation=..., dependency=...)\<close>.\<close>

definition create_dependency :: "entry_key \<Rightarrow> nat \<Rightarrow> string \<Rightarrow> store \<Rightarrow> store" where
  "create_dependency k rel dep st =
     st\<lparr>dependencies :=
          dependencies st @ [\<lparr>dep_mod = k, relation = rel, dependency = dep\<rparr>]\<rparr>"

text \<open>Modelled from the spec: \<^verbatim>\<open>self.service.save()\<close> writes the service row.\<close>

definition save_service :: "mod_service \<Rightarrow> store \<Rightarrow> store" where
  "save_service svc st =
     st\<lparr>services :=
          map (\<lambda>s. if service_id s = service_id svc then svc else s) (services st)\<rparr>"

text \<open>
  Modelled from the spec: \<^verbatim>\<open>with db.transaction()\<close>, the store's atomic unit of work
  (all writes inside commit together or none do). The body returns its result and the
  store it has written; when it raises, the store the transaction started from is kept.
\<close>

definition transaction ::
  "(store \<Rightarrow> (error + 'a) \<times> store) \<Rightarrow> store \<Rightarrow> (error + 'a) \<times> store" where
  "transaction body st =
     (case body st of
        (Inl e, st') \<Rightarrow> (Inl e, st)
      | (Inr v, st') \<Rightarrow> (Inr v, st'))"

section \<open>Catalog synchronizer: \<^verbatim>\<open>ServiceUpdater\<close> and \<^verbatim>\<open>ModDb.update_services\<close>\<close>

text \<open>
  A package descriptor of the manifest (the dict \<^verbatim>\<open>mod\<close>). Every key may be absent
  (\<open>None\<close>): \<^verbatim>\<open>mod["name"]\<close> then raises \<^verbatim>\<open>KeyError\<close>, \<^verbatim>\<open>mod.get(field)\<close> gives
  \<^verbatim>\<open>None\<close>, \<^verbatim>\<open>mod.get("depends", [])\<close> gives the empty list.
\<close>

record mod_descr =
  d_name :: "string option"
  d_version :: "string option"
  d_filename :: "string option"
  d_description :: "pyval option"
  d_filehash :: "pyval option"
  d_filesize :: "pyval option"
  d_homepage :: "pyval option"
  d_author :: "pyval option"
  d_depends :: "string list option"
  d_provides :: "string list option"
  d_conflict :: "string list option"
  d_recommends :: "string list option"

record service_block =
  sb_name :: "string option"
  sb_filelocations :: "string list option"

record manifest =
  m_service :: "service_block option"
  m_mods :: "mod_descr list option"

definition mod_get :: "mod_descr \<Rightarrow> string \<Rightarrow> pyval" where
  "mod_get d field =
     (case (if field = ''description'' then d_description d
            else if field = ''filehash'' then d_filehash d
            else if field = ''filesize'' then d_filesize d
            else if field = ''homepage'' then d_homepage d
            else if field = ''author'' then d_author d
            else None) of
        None \<Rightarrow> PNone
      | Some v \<Rightarrow> v)"

definition setattr :: "mod_entry \<Rightarrow> string \<Rightarrow> pyval \<Rightarrow> mod_entry" where
  "setattr m field v =
     (if field = ''description'' then m\<lparr>description := v\<rparr>
      else if field = ''filehash'' then m\<lparr>filehash := v\<rparr>
      else if field = ''filesize'' then m\<lparr>filesize := v\<rparr>
      else if field = ''homepage'' then m\<lparr>homepage := v\<rparr>
      else if field = ''author'' then m\<lparr>author := v\<rparr>
      else m)"

definition get_list :: "string list option \<Rightarrow> string list" where
  "get_list l = (case l of None \<Rightarrow> [] | Some xs \<Rightarrow> xs)"

definition optional_fields :: "string list" where
  "optional_fields = [''description'', ''filehash'', ''filesize'', ''homepage'', ''author'']"

text \<open>The loop over the optional entries in \<^verbatim>\<open>save_mod_instance\<close>.\<close>

definition set_optional :: "mod_descr \<Rightarrow> mod_entry \<Rightarrow> mod_entry" where
  "set_optional d m =
     fold (\<lambda>field m. if truthy (mod_get d field) then setattr m field (mod_get d field) else m)
       optional_fields m"

definition set_dependency_relation ::
  "entry_key \<Rightarrow> string list \<Rightarrow> nat \<Rightarrow> store \<Rightarrow> store" where
  "set_dependency_relation modentry deps rel st =
     fold (\<lambda>dep. create_dependency modentry rel dep) deps
       (delete_dependencies modentry rel st)"

text \<open>
  \<^verbatim>\<open>save_mod_instance\<close> returns the entry reference, the saved entry and the created
  flag. When a \<^verbatim>\<open>KeyError\<close> is raised, the store is the one written so far.
\<close>

definition save_mod_instance ::
  "nat \<Rightarrow> mod_descr \<Rightarrow> store \<Rightarrow> (error + (entry_key \<times> mod_entry \<times> bool)) \<times> store" where
  "save_mod_instance svc d st =
     (case d_name d of
        None \<Rightarrow> (Inl (KeyError ''name''), st)
      | Some n \<Rightarrow>
          (case get_or_create n svc st of
             ((modentry, created), st1) \<Rightarrow>
               (case d_version d of
                  None \<Rightarrow> (Inl (KeyError ''version''), st1)
                | Some v \<Rightarrow>
                    (case d_filename d of
                       None \<Rightarrow> (Inl (KeyError ''filename''), st1)
                     | Some fn \<Rightarrow>
                         (let m = set_optional d
                                    (modentry\<lparr>version := v, filename := fn, service := svc\<rparr>)
                          in (Inr ((n, svc), m, created), save_entry (n, svc) m st1))))))"

text \<open>
  \<^verbatim>\<open>update_mods\<close>: the pair of counters is \<^verbatim>\<open>(self.new, self.updated)\<close>.
\<close>

fun update_mods ::
  "nat \<Rightarrow> mod_descr list \<Rightarrow> nat \<times> nat \<Rightarrow> store \<Rightarrow> (error + (nat \<times> nat)) \<times> store" where
  "update_mods svc [] counts st = (Inr counts, st)"
| "update_mods svc (d # modlist) (new, updated) st =
     (case save_mod_instance svc d st of
        (Inl e, st1) \<Rightarrow> (Inl e, st1)
      | (Inr (modentry, m, new_entry), st1) \<Rightarrow>
          update_mods svc modlist
            (if new_entry then (new + 1, updated) else (new, updated + 1))
            (set_dependency_relation modentry (get_list (d_recommends d)) 3
              (set_dependency_relation modentry (get_list (d_conflict d)) 2
                (set_dependency_relation modentry (name m # get_list (d_provides d)) 1
                  (set_dependency_relation modentry (get_list (d_depends d)) 0 st1)))))"

definition update_service_data ::
  "mod_service \<Rightarrow> manifest \<Rightarrow> store \<Rightarrow> (error + mod_service) \<times> store" where
  "update_service_data svc data st =
     (case m_service data of
        None \<Rightarrow> (Inl (KeyError ''service''), st)
      | Some b \<Rightarrow>
          (case sb_name b of
             None \<Rightarrow> (Inl (KeyError ''name''), st)
           | Some n \<Rightarrow>
               (case sb_filelocations b of
                  None \<Rightarrow> (Inl (KeyError ''filelocations''), st)
                | Some ms \<Rightarrow>
                    (let svc' = svc\<lparr>service_name := n, mirrors := ms\<rparr>
                     in (Inr svc', save_service svc' st)))))"

text \<open>
  \<^verbatim>\<open>ServiceUpdater(service).update()\<close>. \<open>get_json\<close> is the network fetch and JSON parse
  of \<^verbatim>\<open>get_json(url)\<close>; a fresh updater starts with both counters at 0. The result
  is the service with its new name and the two counters.
\<close>

definition update ::
  "(string \<Rightarrow> error + manifest) \<Rightarrow> mod_service \<Rightarrow> store
     \<Rightarrow> (error + (mod_service \<times> nat \<times> nat)) \<times> store" where
  "update get_json svc st =
     (case get_json (url svc) of
        Inl e \<Rightarrow> (Inl e, st)
      | Inr data \<Rightarrow>
          (case update_service_data svc data st of
             (Inl e, st1) \<Rightarrow> (Inl e, st1)
           | (Inr svc', st1) \<Rightarrow>
               (case m_mods data of
                  None \<Rightarrow> (Inl (KeyError ''mods''), st1)
                | Some modlist \<Rightarrow>
                    (case update_mods (service_id svc') modlist (0, 0) st1 of
                       (Inl e, st2) \<Rightarrow> (Inl e, st2)
                     | (Inr (new, updated), st2) \<Rightarrow> (Inr (svc', new, updated), st2)))))"

text \<open>
  The loop of \<^verbatim>\<open>update_services\<close> over the services; \<open>logged\<close> collects the lines
  written by \<^verbatim>\<open>L.info\<close> (service name, new, updated).
\<close>

fun update_each ::
  "(string \<Rightarrow> error + manifest) \<Rightarrow> mod_service list \<Rightarrow> (string \<times> nat \<times> nat) list \<Rightarrow> store
     \<Rightarrow> (error + (string \<times> nat \<times> nat) list) \<times> store" where
  "update_each get_json [] logged st = (Inr logged, st)"
| "update_each get_json (svc # svcs) logged st =
     (case update get_json svc st of
        (Inl e, st1) \<Rightarrow> (Inl e, st1)
      | (Inr (svc', new, updated), st1) \<Rightarrow>
          update_each get_json svcs (logged @ [(service_name svc', new, updated)]) st1)"

definition update_services ::
  "(string \<Rightarrow> error + manifest) \<Rightarrow> store
     \<Rightarrow> (error + (string \<times> nat \<times> nat) list) \<times> store" where
  "update_services get_json st =
     transaction (\<lambda>st. update_each get_json (services st) [] st) st"

section \<open>Dependency resolver: \<^verbatim>\<open>ModDependencies\<close> and \<^verbatim>\<open>ModInstance\<close>\<close>

text \<open>
  A triple of the resolution record is (provider, source, relation), as
  \<^verbatim>\<open>add_dependency\<close> stores it. The record \<^verbatim>\<open>depmap\<close> is a
  \<^verbatim>\<open>defaultdict(list)\<close>: \<open>items\<close> is the dictionary proper, and \<open>inserted\<close> lists its
  keys in the order in which they were inserted (no key is ever deleted). The module is
  Python 2 code, where a dictionary is not iterated in insertion order; \<open>inserted\<close> is the
  part of the dictionary's history on which its iteration order can depend.
\<close>

type_synonym dep_triple = "entry_key \<times> entry_key \<times> nat"

record depmap =
  inserted :: "string list"
  items :: "string \<rightharpoonup> dep_triple list"

text \<open>\<^verbatim>\<open>ModDependencies.__init__\<close>.\<close>

definition new_depmap :: depmap where
  "new_depmap = \<lparr>inserted = [], items = Map.empty\<rparr>"

text \<open>
  \<^verbatim>\<open>self.depmap[tag]\<close>: the list under the key; on a missing key a
  \<^verbatim>\<open>defaultdict(list)\<close> inserts an empty list first.
\<close>

definition getitem :: "depmap \<Rightarrow> string \<Rightarrow> dep_triple list \<times> depmap" where
  "getitem m tag =
     (case items m tag of
        Some deplist \<Rightarrow> (deplist, m)
      | None \<Rightarrow> ([], m\<lparr>inserted := inserted m @ [tag], items := (items m)(tag \<mapsto> [])\<rparr>))"

text \<open>\<^verbatim>\<open>self.depmap[tag].append((provider, source, relation))\<close>: the list is changed in place.\<close>

definition add_dependency ::
  "depmap \<Rightarrow> string \<Rightarrow> entry_key \<Rightarrow> nat \<Rightarrow> entry_key \<Rightarrow> depmap" where
  "add_dependency m tag provider rel source =
     (case getitem m tag of
        (deplist, m') \<Rightarrow> m'\<lparr>items := (items m')(tag \<mapsto> deplist @ [(provider, source, rel)])\<rparr>)"

text \<open>\<^verbatim>\<open>_filter\<close>: the loop appends to \<open>r\<close>.\<close>

fun filter_loop :: "dep_triple list \<Rightarrow> nat \<Rightarrow> dep_triple list \<Rightarrow> dep_triple list" where
  "filter_loop [] rel r = r"
| "filter_loop (dep # deplist) rel r =
     filter_loop deplist rel (if snd (snd dep) = rel then r @ [dep] else r)"

definition filter_deps :: "dep_triple list \<Rightarrow> nat \<Rightarrow> dep_triple list" where
  "filter_deps deplist rel = filter_loop deplist rel []"

text \<open>
  \<^verbatim>\<open>simple_get_mods\<close>. The keys visited by \<^verbatim>\<open>for dep in self.depmap\<close> are the second
  argument of the loop; the loop appends to \<open>l\<close>; the index \<^verbatim>\<open>[0][0]\<close> is only evaluated
  on a non-empty list. The order in which the interpreter iterates a dictionary is the
  parameter \<open>dict_order\<close>: it maps the keys in the order of their insertion to the keys in
  the order of iteration. The visited keys are keys of the dictionary, so that
  \<^verbatim>\<open>self.depmap[dep]\<close> inserts nothing there.
\<close>

fun simple_loop :: "depmap \<Rightarrow> string list \<Rightarrow> nat \<Rightarrow> entry_key list \<Rightarrow> entry_key list" where
  "simple_loop m [] rel l = l"
| "simple_loop m (dep # deps) rel l =
     simple_loop m deps rel
       (case filter_deps (fst (getitem m dep)) rel of
          [] \<Rightarrow> l
        | t # ts \<Rightarrow> l @ [fst t])"

definition simple_get_mods ::
  "(string list \<Rightarrow> string list) \<Rightarrow> depmap \<Rightarrow> nat \<Rightarrow> entry_key list" where
  "simple_get_mods dict_order m rel = simple_loop m (dict_order (inserted m)) rel []"

definition get_dependency_info :: "mod_dependency list \<Rightarrow> entry_key \<Rightarrow> nat \<Rightarrow> string list" where
  "get_dependency_info rows self rel =
     map dependency (filter (\<lambda>x. dep_mod x = self \<and> relation x = rel) rows)"

text \<open>The provider query of \<^verbatim>\<open>resolve_dependencies\<close>: relation 1 is Provides.\<close>

definition providers :: "mod_dependency list \<Rightarrow> string \<Rightarrow> mod_dependency list" where
  "providers rows dep = filter (\<lambda>x. relation x = 1 \<and> dependency x = dep) rows"

text \<open>A \<^verbatim>\<open>for\<close> loop whose body may fail to return.\<close>

fun for_each :: "('a \<Rightarrow> 's \<Rightarrow> 's option) \<Rightarrow> 'a list \<Rightarrow> 's \<Rightarrow> 's option" where
  "for_each body [] s = Some s"
| "for_each body (x # xs) s =
     (case body x s of None \<Rightarrow> None | Some s' \<Rightarrow> for_each body xs s')"

text \<open>
  \<^verbatim>\<open>resolve_dependencies\<close>. The first argument bounds the depth of the recursion: the
  value \<open>None\<close> means that the call did not return within that depth. The state is
  the record \<^verbatim>\<open>depsObject\<close> and the keywords reported by \<^verbatim>\<open>L.warn\<close>. A
  \<^verbatim>\<open>ModDependencies\<close> object is always truthy, so only an absent \<^verbatim>\<open>depsObject\<close> is
  replaced by a new one. The recursive call passes \<^verbatim>\<open>depsObject\<close> only: its
  \<^verbatim>\<open>relation\<close> is the default 0.
\<close>

fun resolve_dependencies ::
  "nat \<Rightarrow> mod_dependency list \<Rightarrow> entry_key \<Rightarrow> nat \<Rightarrow> depmap option \<Rightarrow> string list
     \<Rightarrow> (depmap \<times> string list) option" where
  "resolve_dependencies 0 rows self rel depsObject warned = None"
| "resolve_dependencies (Suc n) rows self rel depsObject warned =
     for_each
       (\<lambda>dep (depmap, warned).
          for_each
            (\<lambda>entry (depmap, warned).
               resolve_dependencies n rows (dep_mod entry) 0
                 (Some (add_dependency depmap dep (dep_mod entry) rel self)) warned)
            (providers rows dep)
            (depmap, if providers rows dep = [] then warned @ [dep] else warned))
       (get_dependency_info rows self rel)
       (case depsObject of None \<Rightarrow> new_depmap | Some m \<Rightarrow> m, warned)"

definition get_dependency_mods ::
  "(string list \<Rightarrow> string list) \<Rightarrow> nat \<Rightarrow> mod_dependency list \<Rightarrow> entry_key
     \<Rightarrow> entry_key list option" where
  "get_dependency_mods dict_order n rows self =
     map_option (\<lambda>(depmap, warned). simple_get_mods dict_order depmap 0)
       (resolve_dependencies n rows self 0 None [])"

subsection \<open>The iteration order of a small dictionary\<close>

text \<open>
  Modelled from the interpreter (CPython 2.7, \<^verbatim>\<open>stringobject.c\<close> and
  \<^verbatim>\<open>dictobject.c\<close>, hash randomization off as by default): the hash of a string, for a
  C \<^verbatim>\<open>long\<close> of 64 bits. A byte string and a unicode string of the same ASCII
  characters have the same hash.
\<close>

definition string_hash :: "string \<Rightarrow> 64 word" where
  "string_hash s =
     (if s = [] then 0
      else (let x = fold (\<lambda>c x. (1000003 * x) XOR of_char c) s (push_bit 7 (of_char (hd s)));
                x = x XOR of_nat (length s)
            in if x = - 1 then - 2 else x))"

text \<open>
  A new dictionary has a table of eight slots, which it keeps for up to five keys. A key
  goes into the slot given by the low three bits of its hash when that slot is free, and
  iteration visits the slots by increasing index. So \<open>small_dict_order\<close> is the iteration
  order of a dictionary of at most five string keys whose slots are pairwise different.
\<close>

definition dict_slot :: "string \<Rightarrow> nat" where
  "dict_slot k = unat (string_hash k AND 7)"

definition small_dict_order :: "string list \<Rightarrow> string list" where
  "small_dict_order ks = sort_key dict_slot ks"

section \<open>Characterisations used in the statements and proofs\<close>

text \<open>
  The rule the spec gives for an optional field: an incoming value that is present and
  truthy replaces the stored one, anything else leaves it.
\<close>

definition overwrite :: "pyval option \<Rightarrow> pyval \<Rightarrow> pyval" where
  "overwrite incoming stored =
     (case incoming of None \<Rightarrow> stored | Some v \<Rightarrow> if truthy v then v else stored)"

text \<open>The entry an upsert starts from: the stored row, or the freshly created one.\<close>

definition stored_before :: "store \<Rightarrow> entry_key \<Rightarrow> mod_entry" where
  "stored_before st k =
     (case entries st k of None \<Rightarrow> create_entry (fst k) (snd k) | Some m \<Rightarrow> m)"

text \<open>
  The flattening as the spec words it: for each keyword of the record, in the order of
  insertion, keep the triples of the requested kind and take the provider of the first one.
\<close>

definition flatten :: "depmap \<Rightarrow> nat \<Rightarrow> entry_key list" where
  "flatten record_map rel =
     concat (map (\<lambda>keyword.
                    case filter (\<lambda>t. snd (snd t) = rel)
                           (case items record_map keyword of None \<Rightarrow> [] | Some triples \<Rightarrow> triples) of
                      [] \<Rightarrow> []
                    | t # ts \<Rightarrow> [fst t])
              (inserted record_map))"

text \<open>
  A call of \<^verbatim>\<open>add_dependency\<close>, as its arguments (tag, provider, relation, source), and
  the record that a sequence of calls leaves in a new \<^verbatim>\<open>ModDependencies\<close>: what has been
  recorded, in the order of recording.
\<close>

type_synonym addition = "string \<times> entry_key \<times> nat \<times> entry_key"

definition record_of :: "addition list \<Rightarrow> depmap" where
  "record_of adds =
     fold (\<lambda>(tag, provider, rel, source) m. add_dependency m tag provider rel source)
       adds new_depmap"

text \<open>The elements of a list in the order of their first occurrence.\<close>

fun first_occurrences :: "'a list \<Rightarrow> 'a list" where
  "first_occurrences [] = []"
| "first_occurrences (x # xs) = x # filter (\<lambda>y. y \<noteq> x) (first_occurrences xs)"

text \<open>
  One pass of the loop of \<^verbatim>\<open>update_mods\<close> for a descriptor that has its three
  mandatory keys, as a function on stores (lemma \<open>update_mods_step\<close> below).
\<close>

definition has_keys :: "mod_descr \<Rightarrow> bool" where
  "has_keys d = (d_name d \<noteq> None \<and> d_version d \<noteq> None \<and> d_filename d \<noteq> None)"

definition descr_key :: "nat \<Rightarrow> mod_descr \<Rightarrow> entry_key" where
  "descr_key svc d = (case d_name d of None \<Rightarrow> [] | Some n \<Rightarrow> n, svc)"

definition upd_entry :: "nat \<Rightarrow> mod_descr \<Rightarrow> mod_entry \<Rightarrow> mod_entry" where
  "upd_entry svc d m =
     set_optional d
       (m\<lparr>version := (case d_version d of None \<Rightarrow> [] | Some v \<Rightarrow> v),
          filename := (case d_filename d of None \<Rightarrow> [] | Some fn \<Rightarrow> fn),
          service := svc\<rparr>)"

definition edge :: "entry_key \<Rightarrow> nat \<Rightarrow> string \<Rightarrow> mod_dependency" where
  "edge k rel dep = \<lparr>dep_mod = k, relation = rel, dependency = dep\<rparr>"

definition block :: "entry_key \<Rightarrow> string \<Rightarrow> mod_descr \<Rightarrow> mod_dependency list" where
  "block k nm d =
     map (edge k 0) (get_list (d_depends d)) @
     map (edge k 1) (nm # get_list (d_provides d)) @
     map (edge k 2) (get_list (d_conflict d)) @
     map (edge k 3) (get_list (d_recommends d))"

definition owned :: "entry_key \<Rightarrow> mod_dependency \<Rightarrow> bool" where
  "owned k r = (dep_mod r = k \<and> relation r < 4)"

definition sync_mod :: "nat \<Rightarrow> mod_descr \<Rightarrow> store \<Rightarrow> store" where
  "sync_mod svc d st =
     (let k = descr_key svc d; m = upd_entry svc d (stored_before st k)
      in st\<lparr>entries := (entries st)(k \<mapsto> m),
            dependencies := filter (\<lambda>r. \<not> owned k r) (dependencies st) @ block k (name m) d\<rparr>)"

text \<open>
  What one pass of the loop does to the edges, given the names of the stored entries: the
  edges of the four kinds owned by the descriptor's entry go, the descriptor's come last.
\<close>

definition sync_rows ::
  "(entry_key \<Rightarrow> string) \<Rightarrow> nat \<Rightarrow> mod_descr \<Rightarrow> mod_dependency list \<Rightarrow> mod_dependency list" where
  "sync_rows nm svc d rows =
     filter (\<lambda>r. \<not> owned (descr_key svc d) r) rows @
     block (descr_key svc d) (nm (descr_key svc d)) d"

text \<open>
  The resolver as the spec words it in its section 4.3, with one parameter: the relation
  kind that step c passes to the recursive call, as a function of the kind of the caller.
  The spec has \<^verbatim>\<open>resolve(P, relation, record)\<close> there, that is the identity. Step a
  finds the candidate providers of a keyword, step b reports a keyword without candidates
  and moves on, step c appends (P, root, relation) to the list of the keyword and recurses,
  whatever the record holds.
\<close>

definition append_triple :: "depmap \<Rightarrow> string \<Rightarrow> dep_triple \<Rightarrow> depmap" where
  "append_triple record_map keyword t =
     \<lparr>inserted =
        (if keyword \<in> dom (items record_map) then inserted record_map
         else inserted record_map @ [keyword]),
      items =
        (items record_map)
          (keyword \<mapsto>
             (case items record_map keyword of None \<Rightarrow> [] | Some triples \<Rightarrow> triples) @ [t])\<rparr>"

fun resolve_spec ::
  "(nat \<Rightarrow> nat) \<Rightarrow> nat \<Rightarrow> mod_dependency list \<Rightarrow> entry_key \<Rightarrow> nat \<Rightarrow> depmap \<Rightarrow> string list
     \<Rightarrow> (depmap \<times> string list) option" where
  "resolve_spec next_kind 0 rows root rel record_map diagnostics = None"
| "resolve_spec next_kind (Suc n) rows root rel record_map diagnostics =
     for_each
       (\<lambda>keyword (record_map, diagnostics).
          if filter (\<lambda>e. relation e = 1 \<and> dependency e = keyword) rows = []
          then Some (record_map, diagnostics @ [keyword])
          else
            for_each
              (\<lambda>p (record_map, diagnostics).
                 resolve_spec next_kind n rows p (next_kind rel)
                   (append_triple record_map keyword (p, root, rel)) diagnostics)
              (map dep_mod (filter (\<lambda>e. relation e = 1 \<and> dependency e = keyword) rows))
              (record_map, diagnostics))
       (map dependency (filter (\<lambda>x. dep_mod x = root \<and> relation x = rel) rows))
       (record_map, diagnostics)"

text \<open>
  The keywords that an entry requires and the candidate providers of a keyword, both in
  store order, read off the rows.
\<close>

definition required_keywords :: "mod_dependency list \<Rightarrow> entry_key \<Rightarrow> string list" where
  "required_keywords rows a =
     map dependency (filter (\<lambda>x. dep_mod x = a \<and> relation x = 0) rows)"

definition candidates :: "mod_dependency list \<Rightarrow> string \<Rightarrow> entry_key list" where
  "candidates rows k = map dep_mod (filter (\<lambda>e. relation e = 1 \<and> dependency e = k) rows)"

text \<open>
  The provide/require graph on entries: an edge from the owner of every Requires row to
  every candidate provider of its keyword.
\<close>

definition dep_edges :: "mod_dependency list \<Rightarrow> (entry_key \<times> entry_key) set" where
  "dep_edges rows =
     set (concat (map (\<lambda>x. map (\<lambda>b. (dep_mod x, b)) (candidates rows (dependency x)))
                      (filter (\<lambda>x. relation x = 0) rows)))"

text \<open>The keywords required by the root or by an entry reachable from it in that graph.\<close>

definition reachable_keywords :: "mod_dependency list \<Rightarrow> entry_key \<Rightarrow> string set" where
  "reachable_keywords rows root =
     {k. \<exists>a. (root, a) \<in> (dep_edges rows)\<^sup>* \<and> k \<in> set (required_keywords rows a)}"

text \<open>
  A record built by Requires resolution alone: every key once in \<open>inserted\<close>, the first
  triple of a keyword that of its first candidate, all triples of kind 0.
\<close>

definition well_recorded :: "mod_dependency list \<Rightarrow> depmap \<Rightarrow> bool" where
  "well_recorded rows m =
     (distinct (inserted m) \<and> set (inserted m) = dom (items m) \<and>
      (\<forall>k ts. items m k = Some ts \<longrightarrow>
         ts \<noteq> [] \<and> fst (hd ts) = hd (candidates rows k) \<and> (\<forall>t \<in> set ts. snd (snd t) = 0)))"

text \<open>
  What resolving the keywords \<open>S\<close> does to the record and the warnings: a well recorded
  record stays so, the keywords of \<open>S\<close> that have a candidate become keys, the others are
  reported.
\<close>

definition resolved ::
  "mod_dependency list \<Rightarrow> string set \<Rightarrow> depmap \<times> string list \<Rightarrow> depmap \<times> string list \<Rightarrow> bool" where
  "resolved rows S s s' =
     ((well_recorded rows (fst s) \<longrightarrow> well_recorded rows (fst s')) \<and>
      dom (items (fst s')) = dom (items (fst s)) \<union> {k \<in> S. candidates rows k \<noteq> []} \<and>
      set (snd s') = set (snd s) \<union> {k \<in> S. candidates rows k = []})"

section \<open>Example data\<close>

definition example_entry :: "pyval \<Rightarrow> mod_entry" where
  "example_entry h =
     \<lparr>name = ''Core'', service = 1, version = ''1.0'', filename = ''core.zip'',
      description = PNone, filehash = h, filesize = PNone, homepage = PNone,
      author = PNone\<rparr>"

definition ex_core :: mod_descr where
  "ex_core =
     \<lparr>d_name = Some ''Core'', d_version = Some ''2.0'', d_filename = Some ''core2.zip'',
      d_description = Some (PStr ''''), d_filehash = None, d_filesize = Some (PInt 0),
      d_homepage = None, d_author = Some (PStr ''me''),
      d_depends = None, d_provides = Some [''core-api''], d_conflict = None,
      d_recommends = None\<rparr>"

definition ex_addon :: mod_descr where
  "ex_addon =
     \<lparr>d_name = Some ''AddonX'', d_version = Some ''0.1'', d_filename = Some ''addonx.zip'',
      d_description = None, d_filehash = None, d_filesize = None,
      d_homepage = None, d_author = None,
      d_depends = Some [''core-api''], d_provides = None, d_conflict = None,
      d_recommends = None\<rparr>"

definition ex_service_a :: mod_service where
  "ex_service_a = \<lparr>service_id = 1, url = ''a'', service_name = ''A'', mirrors = []\<rparr>"

definition ex_service_b :: mod_service where
  "ex_service_b = \<lparr>service_id = 2, url = ''b'', service_name = ''B'', mirrors = []\<rparr>"

definition ex_store :: store where
  "ex_store =
     \<lparr>services = [ex_service_a, ex_service_b],
      entries = [(''Core'', 1) \<mapsto> (example_entry (PStr ''abc''))\<lparr>description := PStr ''X''\<rparr>],
      dependencies = [\<lparr>dep_mod = (''Core'', 1), relation = 1, dependency = ''Core''\<rparr>]\<rparr>"

definition ex_core_saved :: mod_entry where
  "ex_core_saved =
     \<lparr>name = ''Core'', service = 1, version = ''2.0'', filename = ''core2.zip'',
      description = PStr ''X'', filehash = PStr ''abc'', filesize = PNone,
      homepage = PNone, author = PStr ''me''\<rparr>"

definition ex_addon_saved :: mod_entry where
  "ex_addon_saved =
     \<lparr>name = ''AddonX'', service = 1, version = ''0.1'', filename = ''addonx.zip'',
      description = PNone, filehash = PNone, filesize = PNone,
      homepage = PNone, author = PNone\<rparr>"

definition ex_manifest :: manifest where
  "ex_manifest =
     \<lparr>m_service = Some \<lparr>sb_name = Some ''Service A'', sb_filelocations = Some [''http://a/'']\<rparr>,
      m_mods = Some [ex_core, ex_addon]\<rparr>"

text \<open>A network on which only the manifest of service A can be fetched.\<close>

definition ex_get_json :: "string \<Rightarrow> error + manifest" where
  "ex_get_json u = (if u = ''a'' then Inr ex_manifest else Inl (FetchError u))"

text \<open>The store after service A alone has been synchronized from \<open>ex_store\<close>.\<close>

definition ex_store_a :: store where
  "ex_store_a =
     \<lparr>services =
        [\<lparr>service_id = 1, url = ''a'', service_name = ''Service A'', mirrors = [''http://a/'']\<rparr>,
         ex_service_b],
      entries = [(''Core'', 1) \<mapsto> ex_core_saved, (''AddonX'', 1) \<mapsto> ex_addon_saved],
      dependencies =
        [\<lparr>dep_mod = (''Core'', 1), relation = 1, dependency = ''Core''\<rparr>,
         \<lparr>dep_mod = (''Core'', 1), relation = 1, dependency = ''core-api''\<rparr>,
         \<lparr>dep_mod = (''AddonX'', 1), relation = 0, dependency = ''core-api''\<rparr>,
         \<lparr>dep_mod = (''AddonX'', 1), relation = 1, dependency = ''AddonX''\<rparr>]\<rparr>"

text \<open>
  A catalog in which the kinds matter: Pack recommends the keyword shaders; Shaders provides
  it, requires core and recommends hd; Core and HD provide these.
\<close>

definition ex_catalog :: "mod_dependency list" where
  "ex_catalog =
     [edge (''Pack'', 1) 1 ''Pack'', edge (''Pack'', 1) 3 ''shaders'',
      edge (''Shaders'', 1) 0 ''core'', edge (''Shaders'', 1) 1 ''Shaders'',
      edge (''Shaders'', 1) 1 ''shaders'', edge (''Shaders'', 1) 3 ''hd'',
      edge (''Core'', 1) 1 ''Core'', edge (''Core'', 1) 1 ''core'',
      edge (''HD'', 1) 1 ''HD'', edge (''HD'', 1) 1 ''hd'']"

text \<open>
  A catalog with a cycle: Loop requires its own name, which every synchronized entry
  provides, and Pack recommends Loop.
\<close>

definition ex_cycle :: "mod_dependency list" where
  "ex_cycle =
     [edge (''Pack'', 1) 1 ''Pack'', edge (''Pack'', 1) 3 ''Loop'',
      edge (''Loop'', 1) 0 ''Loop'', edge (''Loop'', 1) 1 ''Loop'']"

text \<open>
  The record after Root has been resolved in a catalog where it requires the keyword b,
  provided by ModB, and then the keyword a, provided by ModA.
\<close>

definition ex_record :: depmap where
  "ex_record =
     record_of [(''b'', (''ModB'', 1), 0, (''Root'', 1)), (''a'', (''ModA'', 1), 0, (''Root'', 1))]"

text \<open>
  A catalog without cycles: AddonX requires the keyword core-api, which Core provides, and
  the keyword sound, which nothing provides.
\<close>

definition ex_requires :: "mod_dependency list" where
  "ex_requires =
     [edge (''Core'', 1) 1 ''Core'', edge (''Core'', 1) 1 ''core-api'',
      edge (''AddonX'', 1) 0 ''core-api'', edge (''AddonX'', 1) 0 ''sound'',
      edge (''AddonX'', 1) 1 ''AddonX'']"

section \<open>Properties of the integrity verifier\<close>

lemma hash_loop_blocks:
  "hash_loop h (take BLOCKSIZE content) (drop BLOCKSIZE content) = h @ content"
proof (induction "length content" arbitrary: h content rule: less_induct)
  case less
  show ?case
  proof (cases "content = []")
    case True
    then show ?thesis by (simp add: hash_loop.simps [of h "[]" "[]"])
  next
    case False
    have pos: "0 < BLOCKSIZE" by (simp add: BLOCKSIZE_def)
    with False have shorter: "length (drop BLOCKSIZE content) < length content"
      by simp
    from False pos have nonempty: "0 < length (take BLOCKSIZE content)"
      by simp
    have "hash_loop h (take BLOCKSIZE content) (drop BLOCKSIZE content) =
          hash_loop (h @ take BLOCKSIZE content)
            (take BLOCKSIZE (drop BLOCKSIZE content))
            (drop BLOCKSIZE (drop BLOCKSIZE content))"
      using nonempty
      by (subst hash_loop.simps) simp
    also have "\<dots> = (h @ take BLOCKSIZE content) @ drop BLOCKSIZE content"
      using less [OF shorter] .
    finally show ?thesis by simp
  qed
qed

lemma create_filehash_whole:
  "fs path = Some content \<Longrightarrow> create_filehash hasher fs path = Inr (hasher content)"
  by (simp add: create_filehash_def hash_loop_blocks)

text \<open>
  C8. For every path, entry and flag. When the entry carries a stored (truthy) reference
  digest, \<open>check_file\<close> returns true exactly when the file at the path can be read and the
  digest computed over its whole content equals the stored one; when the file can be read
  and the digests differ, the result is the value false, not an error; the only error is
  that of opening a file that cannot be read. When the entry carries no digest, the flag is
  returned verbatim.
\<close>

theorem check_file_verdict:
  "check_file hasher fs m path flag =
     (if truthy (filehash m)
      then (case fs path of
              None \<Rightarrow> Inl (IOError path)
            | Some content \<Rightarrow> Inr (PStr (hasher content) = filehash m))
      else Inr flag)"
  by (simp add: check_file_def create_filehash_def hash_loop_blocks split: option.splits)

theorem check_file_verdict_witness:
  "check_file (\<lambda>b. b) [''f'' \<mapsto> ''abc''] (example_entry (PStr ''abc'')) ''f'' False = Inr True \<and>
   check_file (\<lambda>b. b) [''f'' \<mapsto> ''abd''] (example_entry (PStr ''abc'')) ''f'' True = Inr False \<and>
   check_file (\<lambda>b. b) [''f'' \<mapsto> ''abc''] (example_entry (PStr ''abc'')) ''g'' True =
     Inl (IOError ''g'') \<and>
   check_file (\<lambda>b. b) [''f'' \<mapsto> ''abc''] (example_entry PNone) ''f'' True = Inr True \<and>
   check_file (\<lambda>b. b) [''f'' \<mapsto> ''abc''] (example_entry PNone) ''f'' False = Inr False"
  using check_file_verdict [of "\<lambda>b. b" "[''f'' \<mapsto> ''abc'']" "example_entry (PStr ''abc'')" "''f''" False]
    check_file_verdict [of "\<lambda>b. b" "[''f'' \<mapsto> ''abd'']" "example_entry (PStr ''abc'')" "''f''" True]
    check_file_verdict [of "\<lambda>b. b" "[''f'' \<mapsto> ''abc'']" "example_entry (PStr ''abc'')" "''g''" True]
    check_file_verdict [of "\<lambda>b. b" "[''f'' \<mapsto> ''abc'']" "example_entry PNone" "''f''" True]
    check_file_verdict [of "\<lambda>b. b" "[''f'' \<mapsto> ''abc'']" "example_entry PNone" "''f''" False]
  by (simp add: example_entry_def)

text \<open>
  C10. When the entry carries no (truthy) stored digest, \<open>check_file\<close> does not depend on
  the file system or on the path: any two file-system states and any two paths give the
  same result, which is the flag, so a missing or unreadable file cannot make it fail.
\<close>

theorem check_file_without_digest:
  "\<not> truthy (filehash m) \<Longrightarrow>
     check_file hasher fs1 m path1 flag = check_file hasher fs2 m path2 flag \<and>
     check_file hasher fs1 m path1 flag = Inr flag"
  by (simp add: check_file_def)

theorem check_file_without_digest_witness:
  "\<not> truthy (filehash (example_entry (PStr ''''))) \<and>
   check_file (\<lambda>b. b) Map.empty (example_entry (PStr '''')) ''missing'' True =
     check_file (\<lambda>b. b) [''f'' \<mapsto> ''abc''] (example_entry (PStr '''')) ''f'' True \<and>
   check_file (\<lambda>b. b) Map.empty (example_entry (PStr '''')) ''missing'' True = Inr True"
proof -
  have h: "\<not> truthy (filehash (example_entry (PStr '''')))"
    by (simp add: example_entry_def)
  show ?thesis
    using h check_file_without_digest [OF h, of "\<lambda>b. b" Map.empty "''missing''" True
      "[''f'' \<mapsto> ''abc'']" "''f''"]
    by blast
qed

section \<open>Properties of the relation resync\<close>

lemma fold_create_dependency:
  "fold (\<lambda>dep. create_dependency k rel dep) deps st =
     st\<lparr>dependencies := dependencies st @
       map (\<lambda>dep. \<lparr>dep_mod = k, relation = rel, dependency = dep\<rparr>) deps\<rparr>"
  by (induction deps arbitrary: st) (simp_all add: create_dependency_def)

lemma set_dependency_relation_eq:
  "set_dependency_relation k deps rel st =
     st\<lparr>dependencies :=
          filter (\<lambda>r. \<not> (dep_mod r = k \<and> relation r = rel)) (dependencies st) @
          map (\<lambda>dep. \<lparr>dep_mod = k, relation = rel, dependency = dep\<rparr>) deps\<rparr>"
  by (simp add: set_dependency_relation_def fold_create_dependency delete_dependencies_def)

text \<open>
  C5. A relation resync replaces the edges of one kind of one entry: afterwards the
  entry's edges of that kind are exactly one edge per keyword of the declared list, in
  order, whatever was stored before; every other edge is kept; an absent list
  (\<open>get_list None\<close>) leaves no edge of that kind; and a resync with [A, B] followed
  by one with [B] leaves B only.
\<close>

theorem set_dependency_relation_replaces:
  "filter (\<lambda>r. dep_mod r = k \<and> relation r = rel)
      (dependencies (set_dependency_relation k deps rel st)) =
     map (\<lambda>dep. \<lparr>dep_mod = k, relation = rel, dependency = dep\<rparr>) deps \<and>
   filter (\<lambda>r. \<not> (dep_mod r = k \<and> relation r = rel))
      (dependencies (set_dependency_relation k deps rel st)) =
     filter (\<lambda>r. \<not> (dep_mod r = k \<and> relation r = rel)) (dependencies st) \<and>
   filter (\<lambda>r. dep_mod r = k \<and> relation r = rel)
      (dependencies (set_dependency_relation k (get_list None) rel st)) = [] \<and>
   map dependency (filter (\<lambda>r. dep_mod r = k \<and> relation r = rel)
      (dependencies (set_dependency_relation k [''B''] rel
         (set_dependency_relation k [''A'', ''B''] rel st)))) = [''B'']"
  by (simp add: set_dependency_relation_eq get_list_def filter_map comp_def)

section \<open>Properties of the entry upsert\<close>

lemma set_optional_eq:
  "set_optional d m =
     m\<lparr>description := overwrite (d_description d) (description m),
       filehash := overwrite (d_filehash d) (filehash m),
       filesize := overwrite (d_filesize d) (filesize m),
       homepage := overwrite (d_homepage d) (homepage m),
       author := overwrite (d_author d) (author m)\<rparr>"
  by (simp add: set_optional_def optional_fields_def mod_get_def setattr_def overwrite_def
      split: option.splits)

lemma save_mod_instance_Inr:
  "save_mod_instance svc d st = (Inr (k, m, created), st') \<Longrightarrow>
     \<exists>n v fn. d_name d = Some n \<and> d_version d = Some v \<and> d_filename d = Some fn \<and>
       k = (n, svc) \<and> created = (entries st k = None) \<and>
       m = set_optional d ((stored_before st k)\<lparr>version := v, filename := fn, service := svc\<rparr>) \<and>
       st' = st\<lparr>entries := (entries st)(k \<mapsto> m)\<rparr>"
  by (auto simp: save_mod_instance_def get_or_create_def save_entry_def stored_before_def
      Let_def split: option.splits)

text \<open>
  C6. After an upsert that returns the entry \<open>m\<close>, version and filename are the
  descriptor's, the service is the updater's, and each of the five optional fields is
  the incoming value exactly when that value is present and truthy and the previously
  stored value otherwise (\<open>overwrite\<close>); the entry is stored under its key and nothing
  else in the store changes.
\<close>

theorem save_mod_instance_fields:
  "save_mod_instance svc d st = (Inr (k, m, created), st') \<Longrightarrow>
     d_version d = Some (version m) \<and> d_filename d = Some (filename m) \<and> service m = svc \<and>
     description m = overwrite (d_description d) (description (stored_before st k)) \<and>
     filehash m = overwrite (d_filehash d) (filehash (stored_before st k)) \<and>
     filesize m = overwrite (d_filesize d) (filesize (stored_before st k)) \<and>
     homepage m = overwrite (d_homepage d) (homepage (stored_before st k)) \<and>
     author m = overwrite (d_author d) (author (stored_before st k)) \<and>
     name m = name (stored_before st k) \<and>
     entries st' = (entries st)(k \<mapsto> m) \<and>
     dependencies st' = dependencies st \<and> services st' = services st"
  by (drule save_mod_instance_Inr) (auto simp: set_optional_eq)

lemma ex_save:
  "save_mod_instance 1 ex_core ex_store =
     (Inr ((''Core'', 1), ex_core_saved, False),
      ex_store\<lparr>entries := (entries ex_store)((''Core'', 1) \<mapsto> ex_core_saved)\<rparr>)"
  by (simp add: save_mod_instance_def ex_core_def ex_store_def get_or_create_def
      set_optional_eq overwrite_def save_entry_def example_entry_def ex_core_saved_def Let_def)

theorem save_mod_instance_fields_witness:
  "save_mod_instance 1 ex_core ex_store =
     (Inr ((''Core'', 1), ex_core_saved, False),
      ex_store\<lparr>entries := (entries ex_store)((''Core'', 1) \<mapsto> ex_core_saved)\<rparr>) \<and>
   description (stored_before ex_store (''Core'', 1)) = PStr ''X'' \<and>
   d_description ex_core = Some (PStr '''') \<and>
   description ex_core_saved = PStr ''X'' \<and>
   d_author ex_core = Some (PStr ''me'') \<and>
   author ex_core_saved = PStr ''me'' \<and>
   d_version ex_core = Some (version ex_core_saved)"
  using save_mod_instance_fields [OF ex_save] ex_save
  by (simp add: ex_core_def ex_store_def stored_before_def example_entry_def overwrite_def)

section \<open>Properties of the flattening\<close>

lemma filter_loop_eq: "filter_loop deplist rel r = r @ filter (\<lambda>t. snd (snd t) = rel) deplist"
  by (induction deplist arbitrary: r) simp_all

lemma filter_deps_eq: "filter_deps deplist rel = filter (\<lambda>t. snd (snd t) = rel) deplist"
  by (simp add: filter_deps_def filter_loop_eq)

lemma simple_loop_eq:
  "simple_loop m ks rel l =
     l @ concat (map (\<lambda>k. case filter (\<lambda>t. snd (snd t) = rel)
                              (case items m k of None \<Rightarrow> [] | Some ts \<Rightarrow> ts) of
                         [] \<Rightarrow> []
                       | t # ts \<Rightarrow> [fst t]) ks)"
  by (induction ks arbitrary: l)
     (auto simp: filter_deps_eq getitem_def split: list.splits option.splits)

lemma add_dependency_eq:
  "add_dependency m tag provider rel source = append_triple m tag (provider, source, rel)"
  by (auto simp: add_dependency_def getitem_def append_triple_def split: option.splits)

lemma items_fold_add_dependency:
  "(case items (fold (\<lambda>(tag, provider, rel, source) m. add_dependency m tag provider rel source)
                  adds m) k of None \<Rightarrow> [] | Some ts \<Rightarrow> ts) =
     (case items m k of None \<Rightarrow> [] | Some ts \<Rightarrow> ts) @
     map (\<lambda>(tag, provider, rel, source). (provider, source, rel)) (filter (\<lambda>a. fst a = k) adds)"
  by (induction adds arbitrary: m)
     (auto simp: add_dependency_eq append_triple_def split: option.splits)

lemma inserted_fold_add_dependency:
  "set (inserted m) = dom (items m) \<Longrightarrow>
     inserted (fold (\<lambda>(tag, provider, rel, source) m. add_dependency m tag provider rel source)
                 adds m) =
       inserted m @ filter (\<lambda>k. k \<notin> set (inserted m)) (first_occurrences (map fst adds))"
proof (induction adds arbitrary: m)
  case Nil
  then show ?case by simp
next
  case (Cons a adds)
  obtain tag provider rel source where a: "a = (tag, provider, rel, source)" by (cases a)
  let ?m = "append_triple m tag (provider, source, rel)"
  have dom: "set (inserted ?m) = dom (items ?m)"
    using Cons.prems by (auto simp: append_triple_def)
  have ins: "inserted ?m = (if tag \<in> set (inserted m) then inserted m else inserted m @ [tag])"
    using Cons.prems by (simp add: append_triple_def)
  have "filter (\<lambda>k. k \<notin> set (inserted ?m)) (first_occurrences (map fst adds)) =
        filter (\<lambda>k. k \<notin> set (inserted m)) (filter (\<lambda>y. y \<noteq> tag) (first_occurrences (map fst adds)))"
    by (auto simp: ins intro: filter_cong)
  with Cons.IH [OF dom] show ?case
    by (simp add: a add_dependency_eq ins)
qed

lemma first_match:
  "(case filter (\<lambda>t. snd (snd t) = rel)
          (map (\<lambda>(tag, provider, r, source). (provider, source, r))
             (filter (\<lambda>a. fst a = k) adds)) of
      [] \<Rightarrow> []
    | t # ts \<Rightarrow> [fst t]) =
   (case filter (\<lambda>(tag, provider, r, source). tag = k \<and> r = rel) adds of
      [] \<Rightarrow> []
    | (tag, provider, r, source) # rest \<Rightarrow> [provider])"
  by (induction adds) (auto split: prod.splits)

text \<open>
  C2, as amended. \<open>simple_get_mods\<close> visits the keywords of the record in the iteration
  order of the dictionary, \<open>dict_order\<close> of the keywords in the order of their first
  recording. Each keyword for which a triple of the requested kind has been recorded
  contributes the provider of the first such triple recorded, and the other keywords
  contribute nothing.
\<close>

theorem simple_get_mods_first_recorded:
  "simple_get_mods dict_order (record_of adds) rel =
     concat (map (\<lambda>k. case filter (\<lambda>(tag, provider, r, source). tag = k \<and> r = rel) adds of
                         [] \<Rightarrow> []
                       | (tag, provider, r, source) # rest \<Rightarrow> [provider])
               (dict_order (first_occurrences (map fst adds))))"
proof -
  have "inserted (record_of adds) = first_occurrences (map fst adds)"
    using inserted_fold_add_dependency [of new_depmap adds]
    by (simp add: record_of_def new_depmap_def)
  moreover have "(case items (record_of adds) k of None \<Rightarrow> [] | Some ts \<Rightarrow> ts) =
      map (\<lambda>(tag, provider, r, source). (provider, source, r)) (filter (\<lambda>a. fst a = k) adds)" for k
    using items_fold_add_dependency [of adds new_depmap k]
    by (simp add: record_of_def new_depmap_def)
  ultimately show ?thesis
    by (simp add: simple_get_mods_def simple_loop_eq first_match)
qed

lemma ex_record_eq:
  "ex_record =
     \<lparr>inserted = [''b'', ''a''],
      items = [''b'' \<mapsto> [((''ModB'', 1), (''Root'', 1), 0)],
               ''a'' \<mapsto> [((''ModA'', 1), (''Root'', 1), 0)]]\<rparr>"
  by (simp add: ex_record_def record_of_def new_depmap_def add_dependency_def getitem_def)

lemma dict_slot_a: "dict_slot ''a'' = 0"
  by (simp add: dict_slot_def string_hash_def)

lemma dict_slot_b: "dict_slot ''b'' = 3"
  by (simp add: dict_slot_def string_hash_def)

text \<open>
  C2, as stated, fails on \<open>ex_record\<close>, where the keyword b was inserted before the keyword
  a: a dictionary of these two keys holds b in slot 3 and a in slot 0 and is iterated from
  a to b, so that \<open>simple_get_mods\<close> returns ModA before ModB, against the order of
  insertion.
\<close>

theorem simple_get_mods_not_insertion_order:
  "inserted ex_record = [''b'', ''a''] \<and>
   map dict_slot (inserted ex_record) = [3, 0] \<and>
   simple_get_mods small_dict_order ex_record 0 = [(''ModA'', 1), (''ModB'', 1)] \<and>
   flatten ex_record 0 = [(''ModB'', 1), (''ModA'', 1)] \<and>
   simple_get_mods small_dict_order ex_record 0 \<noteq> flatten ex_record 0"
  by (simp add: ex_record_eq dict_slot_a dict_slot_b small_dict_order_def simple_get_mods_def
      getitem_def filter_deps_def flatten_def)

section \<open>Properties of the batch synchronization\<close>

lemma update_each_append:
  "update_each get_json pre logged st = (Inr logged', st1) \<Longrightarrow>
     update_each get_json (pre @ rest) logged st = update_each get_json rest logged' st1"
  by (induction pre arbitrary: logged st) (auto split: prod.splits sum.splits)

text \<open>
  C3. \<open>update_services\<close> runs the updates of all services in one transaction. If the
  services before \<open>svc\<close> synchronize (the loop over them returns with the store \<open>st1\<close>
  they have written) and the update of \<open>svc\<close> raises, the store after
  \<open>update_services\<close> is the store it started from: nothing of that run is kept.
  Whenever \<open>update_services\<close> raises, the store is unchanged. If the loop over all
  services returns, its store is the result: all writes commit together.
\<close>

theorem update_services_all_or_nothing:
  "(services st = pre @ svc # post \<and>
    update_each get_json pre [] st = (Inr logged, st1) \<and>
    update get_json svc st1 = (Inl e, st2) \<longrightarrow>
      update_services get_json st = (Inl e, st)) \<and>
   (update_services get_json st = (Inl e', st') \<longrightarrow> st' = st) \<and>
   (update_each get_json (services st) [] st = (Inr logged', st3) \<longrightarrow>
      update_services get_json st = (Inr logged', st3))"
proof (intro conjI impI)
  assume a: "services st = pre @ svc # post \<and>
    update_each get_json pre [] st = (Inr logged, st1) \<and>
    update get_json svc st1 = (Inl e, st2)"
  then have "update_each get_json (services st) [] st = (Inl e, st2)"
    using update_each_append [of get_json pre "[]" st logged st1 "svc # post"] by simp
  then show "update_services get_json st = (Inl e, st)"
    by (simp add: update_services_def transaction_def)
next
  assume "update_services get_json st = (Inl e', st')"
  then show "st' = st"
    by (auto simp: update_services_def transaction_def split: prod.splits sum.splits)
next
  assume "update_each get_json (services st) [] st = (Inr logged', st3)"
  then show "update_services get_json st = (Inr logged', st3)"
    by (simp add: update_services_def transaction_def)
qed

lemma ex_update_a:
  "update ex_get_json ex_service_a ex_store =
     (Inr (\<lparr>service_id = 1, url = ''a'', service_name = ''Service A'',
            mirrors = [''http://a/'']\<rparr>, 1, 1), ex_store_a)"
  by (simp add: update_def ex_get_json_def ex_service_a_def ex_manifest_def
      update_service_data_def save_service_def ex_store_def ex_service_b_def
      save_mod_instance_def get_or_create_def save_entry_def set_optional_eq overwrite_def
      ex_core_def ex_addon_def example_entry_def set_dependency_relation_eq get_list_def
      create_entry_def ex_store_a_def ex_core_saved_def ex_addon_saved_def Let_def)

lemma ex_update_b:
  "update ex_get_json ex_service_b ex_store_a = (Inl (FetchError ''b''), ex_store_a)"
  by (simp add: update_def ex_get_json_def ex_service_b_def)

lemma ex_update_a_alone:
  "update ex_get_json ex_service_a (ex_store\<lparr>services := [ex_service_a]\<rparr>) =
     (Inr (\<lparr>service_id = 1, url = ''a'', service_name = ''Service A'',
            mirrors = [''http://a/'']\<rparr>, 1, 1),
      ex_store_a\<lparr>services := [\<lparr>service_id = 1, url = ''a'', service_name = ''Service A'',
            mirrors = [''http://a/'']\<rparr>]\<rparr>)"
  by (simp add: update_def ex_get_json_def ex_service_a_def ex_manifest_def
      update_service_data_def save_service_def ex_store_def ex_service_b_def
      save_mod_instance_def get_or_create_def save_entry_def set_optional_eq overwrite_def
      ex_core_def ex_addon_def example_entry_def set_dependency_relation_eq get_list_def
      create_entry_def ex_store_a_def ex_core_saved_def ex_addon_saved_def Let_def)

theorem update_services_all_or_nothing_witness:
  "services ex_store = [ex_service_a] @ ex_service_b # [] \<and>
   update_each ex_get_json [ex_service_a] [] ex_store = (Inr [(''Service A'', 1, 1)], ex_store_a) \<and>
   update ex_get_json ex_service_b ex_store_a = (Inl (FetchError ''b''), ex_store_a) \<and>
   dependencies ex_store_a \<noteq> dependencies ex_store \<and>
   update_services ex_get_json ex_store = (Inl (FetchError ''b''), ex_store) \<and>
   update_each ex_get_json (services (ex_store\<lparr>services := [ex_service_a]\<rparr>)) []
       (ex_store\<lparr>services := [ex_service_a]\<rparr>) =
     (Inr [(''Service A'', 1, 1)],
      ex_store_a\<lparr>services := [\<lparr>service_id = 1, url = ''a'', service_name = ''Service A'',
            mirrors = [''http://a/'']\<rparr>]\<rparr>) \<and>
   update_services ex_get_json (ex_store\<lparr>services := [ex_service_a]\<rparr>) =
     (Inr [(''Service A'', 1, 1)],
      ex_store_a\<lparr>services := [\<lparr>service_id = 1, url = ''a'', service_name = ''Service A'',
            mirrors = [''http://a/'']\<rparr>]\<rparr>)"
proof -
  have s: "services ex_store = [ex_service_a] @ ex_service_b # []"
    by (simp add: ex_store_def)
  have a: "update_each ex_get_json [ex_service_a] [] ex_store =
      (Inr [(''Service A'', 1, 1)], ex_store_a)"
    by (simp add: ex_update_a)
  have d: "dependencies ex_store_a \<noteq> dependencies ex_store"
    by (simp add: ex_store_a_def ex_store_def)
  from s a ex_update_b
    update_services_all_or_nothing [of ex_store "[ex_service_a]" ex_service_b "[]"
      ex_get_json "[(''Service A'', 1, 1)]" ex_store_a "FetchError ''b''" ex_store_a]
  have f: "update_services ex_get_json ex_store = (Inl (FetchError ''b''), ex_store)"
    by blast
  have o: "update_each ex_get_json (services (ex_store\<lparr>services := [ex_service_a]\<rparr>)) []
       (ex_store\<lparr>services := [ex_service_a]\<rparr>) =
     (Inr [(''Service A'', 1, 1)],
      ex_store_a\<lparr>services := [\<lparr>service_id = 1, url = ''a'', service_name = ''Service A'',
            mirrors = [''http://a/'']\<rparr>]\<rparr>)"
    by (simp add: ex_update_a_alone)
  from o update_services_all_or_nothing [of "ex_store\<lparr>services := [ex_service_a]\<rparr>" _ _ _
      ex_get_json]
  have c: "update_services ex_get_json (ex_store\<lparr>services := [ex_service_a]\<rparr>) =
     (Inr [(''Service A'', 1, 1)],
      ex_store_a\<lparr>services := [\<lparr>service_id = 1, url = ''a'', service_name = ''Service A'',
            mirrors = [''http://a/'']\<rparr>]\<rparr>)"
    by blast
  from s a ex_update_b d f o c show ?thesis by blast
qed

section \<open>The loop of \<open>update_mods\<close> as a fold\<close>

lemma resync_rows:
  "set_dependency_relation k r3 3
     (set_dependency_relation k r2 2
       (set_dependency_relation k r1 (Suc 0)
         (set_dependency_relation k r0 0 st))) =
   st\<lparr>dependencies := filter (\<lambda>r. \<not> owned k r) (dependencies st) @
        map (edge k 0) r0 @ map (edge k 1) r1 @ map (edge k 2) r2 @ map (edge k 3) r3\<rparr>"
proof -
  have less4: "\<And>n::nat. (n < 4) = (n = 0 \<or> n = 1 \<or> n = 2 \<or> n = 3)"
    by arith
  have "filter (\<lambda>r. \<not> (dep_mod r = k \<and> relation r = 3))
          (filter (\<lambda>r. \<not> (dep_mod r = k \<and> relation r = 2))
            (filter (\<lambda>r. \<not> (dep_mod r = k \<and> relation r = Suc 0))
              (filter (\<lambda>r. \<not> (dep_mod r = k \<and> relation r = 0)) (dependencies st)))) =
        filter (\<lambda>r. \<not> owned k r) (dependencies st)"
    by (auto simp: owned_def less4 intro!: filter_cong)
  then show ?thesis
    by (simp add: set_dependency_relation_eq edge_def filter_map comp_def)
qed

lemma update_mods_step:
  "has_keys d \<Longrightarrow>
     update_mods svc (d # modlist) (new, updated) st =
       update_mods svc modlist
         (if entries st (descr_key svc d) = None then (new + 1, updated) else (new, updated + 1))
         (sync_mod svc d st)"
  by (auto simp: has_keys_def save_mod_instance_def get_or_create_def save_entry_def
      stored_before_def descr_key_def upd_entry_def sync_mod_def Let_def resync_rows block_def)

lemma update_mods_no_keys:
  "\<not> has_keys d \<Longrightarrow> \<exists>e st1. update_mods svc (d # modlist) (new, updated) st = (Inl e, st1)"
  by (auto simp: has_keys_def save_mod_instance_def get_or_create_def
      split: option.splits)

lemma update_mods_returns:
  "update_mods svc modlist counts st = (Inr counts', st') \<Longrightarrow>
     list_all has_keys modlist \<and> st' = fold (sync_mod svc) modlist st"
proof (induction modlist arbitrary: counts st)
  case Nil
  then show ?case by simp
next
  case (Cons d modlist)
  obtain new updated where c: "counts = (new, updated)" by (cases counts)
  have k: "has_keys d"
    using Cons.prems update_mods_no_keys [of d svc modlist new updated st] c by fastforce
  from Cons.prems c
  have "update_mods svc modlist
         (if entries st (descr_key svc d) = None then (new + 1, updated) else (new, updated + 1))
         (sync_mod svc d st) = (Inr counts', st')"
    by (simp only: update_mods_step [OF k])
  from Cons.IH [OF this] k show ?case by simp
qed

lemma entries_sync_mod:
  "entries (sync_mod svc d st) =
     (entries st)(descr_key svc d \<mapsto> upd_entry svc d (stored_before st (descr_key svc d)))"
  by (simp add: sync_mod_def Let_def)

lemma present_sync_mod:
  "k \<in> dom (entries st) \<Longrightarrow> k \<in> dom (entries (sync_mod svc d st))"
  by (simp add: entries_sync_mod)

lemma present_fold:
  "k \<in> dom (entries st) \<Longrightarrow> k \<in> dom (entries (fold (sync_mod svc) modlist st))"
  by (induction modlist arbitrary: st) (simp_all add: present_sync_mod)

lemma present_after:
  "d \<in> set modlist \<Longrightarrow> descr_key svc d \<in> dom (entries (fold (sync_mod svc) modlist st))"
proof (induction modlist arbitrary: st)
  case Nil
  then show ?case by simp
next
  case (Cons e modlist)
  show ?case
  proof (cases "d = e")
    case True
    have "descr_key svc e \<in> dom (entries (sync_mod svc e st))"
      by (simp add: entries_sync_mod)
    then show ?thesis using True by (simp add: present_fold)
  next
    case False
    with Cons show ?thesis by simp
  qed
qed

lemma update_mods_present:
  "list_all has_keys modlist \<Longrightarrow>
   list_all (\<lambda>d. descr_key svc d \<in> dom (entries st)) modlist \<Longrightarrow>
     update_mods svc modlist (new, updated) st =
       (Inr (new, updated + length modlist), fold (sync_mod svc) modlist st)"
proof (induction modlist arbitrary: st updated)
  case Nil
  then show ?case by simp
next
  case (Cons d modlist)
  have k: "has_keys d" using Cons.prems(1) by simp
  have p: "entries st (descr_key svc d) \<noteq> None"
    using Cons.prems(2) by (simp add: domIff)
  have "list_all (\<lambda>d'. descr_key svc d' \<in> dom (entries (sync_mod svc d st))) modlist"
    using Cons.prems(2) by (simp add: list_all_iff present_sync_mod)
  with Cons.IH [of "sync_mod svc d st" "updated + 1"] Cons.prems(1)
  have "update_mods svc modlist (new, updated + 1) (sync_mod svc d st) =
       (Inr (new, updated + 1 + length modlist), fold (sync_mod svc) modlist (sync_mod svc d st))"
    by simp
  with p show ?case
    by (auto simp: update_mods_step [OF k] simp del: update_mods.simps)
qed

section \<open>Self-provision\<close>

lemma dependencies_sync_mod:
  "dependencies (sync_mod svc d st) =
     filter (\<lambda>r. \<not> owned (descr_key svc d) r) (dependencies st) @
     block (descr_key svc d) (name (stored_before st (descr_key svc d))) d"
  by (simp add: sync_mod_def Let_def upd_entry_def set_optional_eq)

lemma name_upd_entry: "name (upd_entry svc d m) = name m"
  by (simp add: upd_entry_def set_optional_eq)

lemma self_edge_sync_mod:
  "\<exists>m. entries (sync_mod svc d st) (descr_key svc d) = Some m \<and>
       edge (descr_key svc d) 1 (name m) \<in> set (dependencies (sync_mod svc d st))"
  by (simp add: entries_sync_mod dependencies_sync_mod block_def name_upd_entry)

lemma self_edge_kept:
  assumes "entries st k = Some m" "edge k 1 (name m) \<in> set (dependencies st)"
  shows "\<exists>m'. entries (sync_mod svc d st) k = Some m' \<and>
       edge k 1 (name m') \<in> set (dependencies (sync_mod svc d st))"
proof (cases "descr_key svc d = k")
  case True
  then show ?thesis using self_edge_sync_mod [of svc d st] by simp
next
  case False
  then have "\<not> owned (descr_key svc d) (edge k 1 (name m))"
    by (simp add: owned_def edge_def)
  with assms False show ?thesis
    by (simp add: entries_sync_mod dependencies_sync_mod)
qed

lemma self_edge_fold:
  "entries st k = Some m \<Longrightarrow> edge k 1 (name m) \<in> set (dependencies st) \<Longrightarrow>
     \<exists>m'. entries (fold (sync_mod svc) modlist st) k = Some m' \<and>
       edge k 1 (name m') \<in> set (dependencies (fold (sync_mod svc) modlist st))"
proof (induction modlist arbitrary: st m)
  case Nil
  then show ?case by simp
next
  case (Cons e modlist)
  from self_edge_kept [OF Cons.prems, of svc e]
  obtain m' where "entries (sync_mod svc e st) k = Some m'"
    "edge k 1 (name m') \<in> set (dependencies (sync_mod svc e st))" by blast
  from Cons.IH [OF this] show ?case by simp
qed

lemma self_edge_after:
  "d \<in> set modlist \<Longrightarrow>
     \<exists>m. entries (fold (sync_mod svc) modlist st) (descr_key svc d) = Some m \<and>
       edge (descr_key svc d) 1 (name m) \<in> set (dependencies (fold (sync_mod svc) modlist st))"
proof (induction modlist arbitrary: st)
  case Nil
  then show ?case by simp
next
  case (Cons e modlist)
  show ?case
  proof (cases "d = e")
    case True
    from self_edge_sync_mod [of svc e st]
    obtain m where "entries (sync_mod svc e st) (descr_key svc e) = Some m"
      "edge (descr_key svc e) 1 (name m) \<in> set (dependencies (sync_mod svc e st))" by blast
    from self_edge_fold [OF this] True show ?thesis by simp
  next
    case False
    with Cons show ?thesis by simp
  qed
qed

text \<open>
  C4. After a pass of \<open>update_mods\<close> that returns, every descriptor \<open>d\<close> of the
  manifest has its entry in the store, and the edges of the store contain a Provides edge
  (kind 1) owned by that entry whose keyword is the entry's own name, whatever the
  descriptor's \<open>provides\<close> list says.
\<close>

theorem update_mods_self_provision:
  "update_mods svc modlist counts st = (Inr counts', st') \<Longrightarrow> d \<in> set modlist \<Longrightarrow>
     \<exists>n m. d_name d = Some n \<and> entries st' (n, svc) = Some m \<and>
       \<lparr>dep_mod = (n, svc), relation = 1, dependency = name m\<rparr> \<in> set (dependencies st')"
proof -
  assume r: "update_mods svc modlist counts st = (Inr counts', st')" and d: "d \<in> set modlist"
  from update_mods_returns [OF r]
  have k: "list_all has_keys modlist" and s: "st' = fold (sync_mod svc) modlist st" by simp_all
  from k d have "has_keys d" by (simp add: list_all_iff)
  then obtain n where n: "d_name d = Some n" by (auto simp: has_keys_def)
  then have "descr_key svc d = (n, svc)" by (simp add: descr_key_def)
  with self_edge_after [OF d, of svc st] s n show ?thesis
    by (auto simp: edge_def)
qed

lemma ex_update_mods:
  "update_mods 1 [ex_core, ex_addon] (0, 0) ex_store =
     (Inr (1, 1), ex_store_a\<lparr>services := services ex_store\<rparr>)"
  by (simp add: ex_store_def ex_service_b_def ex_service_a_def
      save_mod_instance_def get_or_create_def save_entry_def set_optional_eq overwrite_def
      ex_core_def ex_addon_def example_entry_def set_dependency_relation_eq get_list_def
      create_entry_def ex_store_a_def ex_core_saved_def ex_addon_saved_def Let_def)

theorem update_mods_self_provision_witness:
  "update_mods 1 [ex_core, ex_addon] (0, 0) ex_store =
     (Inr (1, 1), ex_store_a\<lparr>services := services ex_store\<rparr>) \<and>
   ex_addon \<in> set [ex_core, ex_addon] \<and>
   d_provides ex_addon = None \<and>
   d_name ex_addon = Some ''AddonX'' \<and>
   entries (ex_store_a\<lparr>services := services ex_store\<rparr>) (''AddonX'', 1) = Some ex_addon_saved \<and>
   \<lparr>dep_mod = (''AddonX'', 1), relation = 1, dependency = name ex_addon_saved\<rparr>
     \<in> set (dependencies (ex_store_a\<lparr>services := services ex_store\<rparr>))"
proof -
  have i: "ex_addon \<in> set [ex_core, ex_addon]" by simp
  from update_mods_self_provision [OF ex_update_mods i]
  obtain n m where "d_name ex_addon = Some n"
    "entries (ex_store_a\<lparr>services := services ex_store\<rparr>) (n, 1) = Some m"
    "\<lparr>dep_mod = (n, 1), relation = 1, dependency = name m\<rparr>
       \<in> set (dependencies (ex_store_a\<lparr>services := services ex_store\<rparr>))"
    by blast
  moreover have "d_name ex_addon = Some ''AddonX''" "d_provides ex_addon = None"
    by (simp_all add: ex_addon_def)
  moreover have "entries (ex_store_a\<lparr>services := services ex_store\<rparr>) (''AddonX'', 1) =
      Some ex_addon_saved"
    by (simp add: ex_store_a_def)
  ultimately show ?thesis using ex_update_mods i by auto
qed

section \<open>A second pass over the same manifest\<close>

lemma overwrite_fold_cases:
  "(\<forall>x. fold (\<lambda>d. overwrite (inc d)) ds x = x) \<or>
   (\<exists>c. \<forall>x. fold (\<lambda>d. overwrite (inc d)) ds x = c)"
proof (induction ds)
  case Nil
  then show ?case by simp
next
  case (Cons d ds)
  have "(\<forall>x. overwrite (inc d) x = x) \<or> (\<exists>c. \<forall>x. overwrite (inc d) x = c)"
    by (auto simp: overwrite_def split: option.splits)
  with Cons show ?case by auto
qed

lemma overwrite_fold_idem:
  "fold (\<lambda>d. overwrite (inc d)) ds (fold (\<lambda>d. overwrite (inc d)) ds x) =
     fold (\<lambda>d. overwrite (inc d)) ds x"
  using overwrite_fold_cases [of inc ds] by metis

lemma fold_upd_entry:
  "ds \<noteq> [] \<Longrightarrow>
     fold (upd_entry svc) ds x =
       x\<lparr>version := (case d_version (last ds) of None \<Rightarrow> [] | Some v \<Rightarrow> v),
         filename := (case d_filename (last ds) of None \<Rightarrow> [] | Some fn \<Rightarrow> fn),
         service := svc,
         description := fold (\<lambda>d. overwrite (d_description d)) ds (description x),
         filehash := fold (\<lambda>d. overwrite (d_filehash d)) ds (filehash x),
         filesize := fold (\<lambda>d. overwrite (d_filesize d)) ds (filesize x),
         homepage := fold (\<lambda>d. overwrite (d_homepage d)) ds (homepage x),
         author := fold (\<lambda>d. overwrite (d_author d)) ds (author x)\<rparr>"
proof (induction ds arbitrary: x)
  case Nil
  then show ?case by simp
next
  case (Cons d ds)
  show ?case
  proof (cases "ds = []")
    case True
    then show ?thesis by (simp add: upd_entry_def set_optional_eq)
  next
    case False
    from Cons.IH [OF False, of "upd_entry svc d x"] False show ?thesis
      by (simp add: upd_entry_def set_optional_eq)
  qed
qed

lemma fold_upd_entry_idem:
  "fold (upd_entry svc) ds (fold (upd_entry svc) ds x) = fold (upd_entry svc) ds x"
proof (cases "ds = []")
  case True
  then show ?thesis by simp
next
  case False
  show ?thesis
    by (simp add: fold_upd_entry [OF False] overwrite_fold_idem)
qed

lemma stored_before_sync_mod:
  "stored_before (sync_mod svc d st) k =
     (if k = descr_key svc d then upd_entry svc d (stored_before st k) else stored_before st k)"
  by (simp add: stored_before_def entries_sync_mod)

lemma services_fold_sync_mod: "services (fold (sync_mod svc) modlist st) = services st"
  by (induction modlist arbitrary: st) (simp_all add: sync_mod_def Let_def)

lemma filter_no_key:
  "k \<notin> descr_key svc ` set modlist \<Longrightarrow> filter (\<lambda>d. descr_key svc d = k) modlist = []"
  by (auto simp: filter_empty_conv)

lemma entries_fold_sync_mod:
  "entries (fold (sync_mod svc) modlist st) k =
     (if k \<in> descr_key svc ` set modlist
      then Some (fold (upd_entry svc) (filter (\<lambda>d. descr_key svc d = k) modlist)
                   (stored_before st k))
      else entries st k)"
proof (induction modlist arbitrary: st)
  case Nil
  then show ?case by simp
next
  case (Cons d modlist)
  show ?case
  proof (cases "descr_key svc d = k")
    case True
    then show ?thesis
      by (auto simp: Cons.IH stored_before_sync_mod entries_sync_mod filter_no_key)
  next
    case False
    then show ?thesis
      by (auto simp: Cons.IH stored_before_sync_mod entries_sync_mod)
  qed
qed

lemma stored_before_fold_sync_mod:
  "stored_before (fold (sync_mod svc) modlist st) k =
     fold (upd_entry svc) (filter (\<lambda>d. descr_key svc d = k) modlist) (stored_before st k)"
proof (cases "k \<in> descr_key svc ` set modlist")
  case True
  then show ?thesis by (simp add: stored_before_def [of "fold (sync_mod svc) modlist st"] entries_fold_sync_mod)
next
  case False
  then show ?thesis
    by (simp add: stored_before_def entries_fold_sync_mod filter_no_key)
qed

lemma entries_second_pass:
  "entries (fold (sync_mod svc) modlist (fold (sync_mod svc) modlist st)) =
     entries (fold (sync_mod svc) modlist st)"
proof
  fix k
  show "entries (fold (sync_mod svc) modlist (fold (sync_mod svc) modlist st)) k =
     entries (fold (sync_mod svc) modlist st) k"
    by (simp add: entries_fold_sync_mod [of svc modlist "fold (sync_mod svc) modlist st"]
        stored_before_fold_sync_mod fold_upd_entry_idem)
       (simp add: entries_fold_sync_mod)
qed

lemma name_fold_upd_entry: "name (fold (upd_entry svc) ds x) = name x"
  by (induction ds arbitrary: x) (simp_all add: name_upd_entry)

lemma name_fold_sync_mod:
  "name (stored_before (fold (sync_mod svc) modlist st) k) = name (stored_before st k)"
  by (simp add: stored_before_fold_sync_mod name_fold_upd_entry)

lemma dependencies_fold_sync_mod:
  "dependencies (fold (sync_mod svc) modlist st) =
     fold (sync_rows (\<lambda>k. name (stored_before st k)) svc) modlist (dependencies st)"
proof (induction modlist arbitrary: st)
  case Nil
  then show ?case by simp
next
  case (Cons d modlist)
  have "(\<lambda>k. name (stored_before (sync_mod svc d st) k)) = (\<lambda>k. name (stored_before st k))"
    by (auto simp: stored_before_sync_mod name_upd_entry)
  then show ?case
    by (simp add: Cons.IH dependencies_sync_mod sync_rows_def)
qed

lemma owned_block: "r \<in> set (block k nm d) \<Longrightarrow> owned k r"
  by (auto simp: block_def owned_def edge_def)

lemma fold_sync_rows_split:
  "fold (sync_rows nm svc) modlist rows =
     filter (\<lambda>r. \<forall>d \<in> set modlist. \<not> owned (descr_key svc d) r) rows @
     fold (sync_rows nm svc) modlist []"
proof (induction modlist arbitrary: rows)
  case Nil
  then show ?case by simp
next
  case (Cons d modlist)
  have "fold (sync_rows nm svc) (d # modlist) rows =
          fold (sync_rows nm svc) modlist (sync_rows nm svc d rows)" by simp
  also have "\<dots> = filter (\<lambda>r. \<forall>d \<in> set modlist. \<not> owned (descr_key svc d) r)
                      (sync_rows nm svc d rows) @ fold (sync_rows nm svc) modlist []"
    by (rule Cons.IH)
  also have "\<dots> = filter (\<lambda>r. \<forall>d \<in> set (d # modlist). \<not> owned (descr_key svc d) r) rows @
       (filter (\<lambda>r. \<forall>d \<in> set modlist. \<not> owned (descr_key svc d) r) (sync_rows nm svc d []) @
        fold (sync_rows nm svc) modlist [])"
    by (simp add: sync_rows_def conj_commute)
  also have "filter (\<lambda>r. \<forall>d \<in> set modlist. \<not> owned (descr_key svc d) r) (sync_rows nm svc d []) @
        fold (sync_rows nm svc) modlist [] = fold (sync_rows nm svc) modlist (sync_rows nm svc d [])"
    by (rule Cons.IH [symmetric])
  finally show ?case by simp
qed

lemma fold_sync_rows_owned:
  "r \<in> set (fold (sync_rows nm svc) modlist rows) \<Longrightarrow>
     r \<in> set rows \<or> (\<exists>d \<in> set modlist. owned (descr_key svc d) r)"
proof (induction modlist arbitrary: rows)
  case Nil
  then show ?case by simp
next
  case (Cons d modlist)
  from Cons.IH [of "sync_rows nm svc d rows"] Cons.prems
  show ?case by (auto simp: sync_rows_def dest: owned_block)
qed

lemma fold_sync_rows_idem:
  "fold (sync_rows nm svc) modlist (fold (sync_rows nm svc) modlist rows) =
     fold (sync_rows nm svc) modlist rows"
proof -
  have "filter (\<lambda>r. \<forall>d \<in> set modlist. \<not> owned (descr_key svc d) r)
          (fold (sync_rows nm svc) modlist []) = []"
    using fold_sync_rows_owned [of _ nm svc modlist "[]"] by (auto simp: filter_empty_conv)
  then have "filter (\<lambda>r. \<forall>d \<in> set modlist. \<not> owned (descr_key svc d) r)
          (fold (sync_rows nm svc) modlist rows) =
        filter (\<lambda>r. \<forall>d \<in> set modlist. \<not> owned (descr_key svc d) r) rows"
    by (simp add: fold_sync_rows_split [of nm svc modlist rows])
  then show ?thesis
    using fold_sync_rows_split [of nm svc modlist "fold (sync_rows nm svc) modlist rows"]
      fold_sync_rows_split [of nm svc modlist rows] by simp
qed

lemma dependencies_second_pass:
  "dependencies (fold (sync_mod svc) modlist (fold (sync_mod svc) modlist st)) =
     dependencies (fold (sync_mod svc) modlist st)"
  by (simp add: dependencies_fold_sync_mod [of svc modlist "fold (sync_mod svc) modlist st"]
      name_fold_sync_mod)
     (simp add: dependencies_fold_sync_mod fold_sync_rows_idem)

lemma second_pass:
  "fold (sync_mod svc) modlist (fold (sync_mod svc) modlist st) = fold (sync_mod svc) modlist st"
  by (rule store.equality)
     (simp_all add: services_fold_sync_mod entries_second_pass dependencies_second_pass)

text \<open>
  C7. When a pass of \<open>update_mods\<close> over a manifest has returned, a second pass over the
  same manifest on the resulting store returns, leaves that store as it is (every entry
  and every edge), and counts no new entry and one update per descriptor.
\<close>

theorem update_mods_twice:
  "update_mods svc modlist (0, 0) st = (Inr (new, updated), st1) \<Longrightarrow>
     update_mods svc modlist (0, 0) st1 = (Inr (0, length modlist), st1)"
proof -
  assume r: "update_mods svc modlist (0, 0) st = (Inr (new, updated), st1)"
  from update_mods_returns [OF r]
  have k: "list_all has_keys modlist" and s: "st1 = fold (sync_mod svc) modlist st" by simp_all
  have p: "list_all (\<lambda>d. descr_key svc d \<in> dom (entries st1)) modlist"
    by (simp add: list_all_iff s present_after)
  from update_mods_present [OF k p, of 0 0] show ?thesis
    by (simp add: s second_pass)
qed

theorem update_mods_twice_witness:
  "update_mods 1 [ex_core, ex_addon] (0, 0) ex_store =
     (Inr (1, 1), ex_store_a\<lparr>services := services ex_store\<rparr>) \<and>
   update_mods 1 [ex_core, ex_addon] (0, 0) (ex_store_a\<lparr>services := services ex_store\<rparr>) =
     (Inr (0, 2), ex_store_a\<lparr>services := services ex_store\<rparr>)"
  using update_mods_twice [OF ex_update_mods] ex_update_mods by simp

section \<open>Properties of the resolver\<close>

lemma for_each_None:
  "x \<in> set xs \<Longrightarrow> (\<And>s. body x s = None) \<Longrightarrow> for_each body xs s = None"
  by (induction xs arbitrary: s) (auto split: option.splits)

lemma for_each_cong:
  "xs = ys \<Longrightarrow> s = t \<Longrightarrow> (\<And>x s. x \<in> set ys \<Longrightarrow> body x s = body' x s) \<Longrightarrow>
     for_each body xs s = for_each body' ys t"
proof -
  assume "xs = ys" "s = t" and b: "\<And>x s. x \<in> set ys \<Longrightarrow> body x s = body' x s"
  have "set xs \<subseteq> set ys \<Longrightarrow> for_each body xs s = for_each body' xs s" for xs s
    by (induction xs arbitrary: s) (auto simp: b split: option.splits)
  with \<open>xs = ys\<close> \<open>s = t\<close> show ?thesis by simp
qed

lemma for_each_map: "for_each body (map g xs) s = for_each (\<lambda>x. body (g x)) xs s"
  by (induction xs arbitrary: s) (auto split: option.splits)

lemma resolve_dependencies_new:
  "resolve_dependencies n rows self rel None warned =
     resolve_dependencies n rows self rel (Some new_depmap) warned"
  by (cases n) simp_all

lemma resolve_dependencies_spec:
  "resolve_dependencies n rows self rel (Some m) warned =
     resolve_spec (\<lambda>rel. 0) n rows self rel m warned"
proof (induction n arbitrary: self rel m warned)
  case 0
  then show ?case by simp
next
  case (Suc n)
  have body:
    "(case s of
        (depmap, warned) \<Rightarrow>
          for_each
            (\<lambda>entry (depmap, warned).
               resolve_dependencies n rows (dep_mod entry) 0
                 (Some (add_dependency depmap dep (dep_mod entry) rel self)) warned)
            (providers rows dep)
            (depmap, if providers rows dep = [] then warned @ [dep] else warned)) =
     (case s of
        (record_map, diagnostics) \<Rightarrow>
          if filter (\<lambda>e. relation e = 1 \<and> dependency e = dep) rows = []
          then Some (record_map, diagnostics @ [dep])
          else
            for_each
              (\<lambda>p (record_map, diagnostics).
                 resolve_spec (\<lambda>rel. 0) n rows p 0
                   (append_triple record_map dep (p, self, rel)) diagnostics)
              (map dep_mod (filter (\<lambda>e. relation e = 1 \<and> dependency e = dep) rows))
              (record_map, diagnostics))" for dep s
    by (cases s) (simp add: providers_def for_each_map Suc.IH add_dependency_eq split_def)
  show ?case
    unfolding resolve_dependencies.simps resolve_spec.simps get_dependency_info_def option.case
    by (rule for_each_cong [OF refl refl]) (rule body)
qed

lemma resolve_self_cycle:
  assumes "dep \<in> set (get_dependency_info rows self 0)"
    and "self \<in> dep_mod ` set (providers rows dep)"
  shows "resolve_dependencies n rows self 0 depsObject warned = None"
proof (induction n arbitrary: depsObject warned)
  case 0
  then show ?case by simp
next
  case (Suc n)
  from assms(2) obtain entry where e: "entry \<in> set (providers rows dep)" "dep_mod entry = self"
    by auto
  have "\<And>s. (case s of (depmap, warned) \<Rightarrow>
          for_each
            (\<lambda>entry (depmap, warned).
               resolve_dependencies n rows (dep_mod entry) 0
                 (Some (add_dependency depmap dep (dep_mod entry) 0 self)) warned)
            (providers rows dep)
            (depmap, if providers rows dep = [] then warned @ [dep] else warned)) = None"
    by (auto intro!: for_each_None [OF e(1)] simp: e(2) Suc.IH)
  then show ?case
    by (simp only: resolve_dependencies.simps) (rule for_each_None [OF assms(1)])
qed

lemma resolve_into_cycle:
  assumes root: "edge root R k \<in> set rows"
    and p: "edge p 1 k \<in> set rows" "edge p 0 k' \<in> set rows" "edge p 1 k' \<in> set rows"
  shows "resolve_dependencies n rows root R depsObject warned = None"
proof (cases n)
  case 0
  then show ?thesis by simp
next
  case (Suc n')
  from p(2) have 1: "k' \<in> set (get_dependency_info rows p 0)"
    by (force simp: get_dependency_info_def edge_def)
  from p(3) have 2: "p \<in> dep_mod ` set (providers rows k')"
    by (force simp: providers_def edge_def)
  from root have 3: "k \<in> set (get_dependency_info rows root R)"
    by (force simp: get_dependency_info_def edge_def)
  from p(1) have 4: "edge p 1 k \<in> set (providers rows k)"
    by (simp add: providers_def edge_def)
  have "\<And>s. (case s of (depmap, warned) \<Rightarrow>
          for_each
            (\<lambda>entry (depmap, warned).
               resolve_dependencies n' rows (dep_mod entry) 0
                 (Some (add_dependency depmap k (dep_mod entry) R root)) warned)
            (providers rows k)
            (depmap, if providers rows k = [] then warned @ [k] else warned)) = None"
    using resolve_self_cycle [OF 1 2]
    by (auto intro!: for_each_None [OF 4] simp: edge_def)
  then show ?thesis
    unfolding Suc by (simp only: resolve_dependencies.simps) (rule for_each_None [OF 3])
qed

text \<open>
  C1, as amended. \<open>resolve_dependencies\<close> is the resolver of the spec with the kind
  Requires (0) in the recursive call, whatever the kind \<open>R\<close> of the caller: for every
  keyword \<open>K\<close> among the edges of kind \<open>R\<close> of the root and every candidate provider \<open>P\<close> of
  \<open>K\<close> it appends (\<open>P\<close>, root, \<open>R\<close>) to the list of \<open>K\<close> in the record and then expands the
  edges of kind 0 of \<open>P\<close>. Nothing guards the recursion: when the root has an edge of kind
  \<open>R\<close> to a keyword provided by an entry that requires a keyword it provides itself, the
  call does not return within any depth.
\<close>

theorem resolve_dependencies_recurses_requires:
  "resolve_dependencies n rows root R depsObject warned =
     resolve_spec (\<lambda>R. 0) n rows root R
       (case depsObject of None \<Rightarrow> \<lparr>inserted = [], items = Map.empty\<rparr> | Some record_map \<Rightarrow> record_map)
       warned \<and>
   (edge root R k \<in> set rows \<and> edge p 1 k \<in> set rows \<and>
    edge p 0 k' \<in> set rows \<and> edge p 1 k' \<in> set rows \<longrightarrow>
      resolve_dependencies n rows root R depsObject warned = None)"
proof (intro conjI impI)
  show "resolve_dependencies n rows root R depsObject warned =
     resolve_spec (\<lambda>R. 0) n rows root R
       (case depsObject of None \<Rightarrow> \<lparr>inserted = [], items = Map.empty\<rparr> | Some record_map \<Rightarrow> record_map)
       warned"
    by (cases depsObject)
       (simp_all add: resolve_dependencies_new resolve_dependencies_spec new_depmap_def)
next
  assume "edge root R k \<in> set rows \<and> edge p 1 k \<in> set rows \<and>
    edge p 0 k' \<in> set rows \<and> edge p 1 k' \<in> set rows"
  then show "resolve_dependencies n rows root R depsObject warned = None"
    by (elim conjE) (rule resolve_into_cycle)
qed

theorem resolve_dependencies_recurses_requires_witness:
  "edge (''Pack'', 1) 3 ''Loop'' \<in> set ex_cycle \<and> edge (''Loop'', 1) 1 ''Loop'' \<in> set ex_cycle \<and>
   edge (''Loop'', 1) 0 ''Loop'' \<in> set ex_cycle \<and>
   resolve_dependencies 7 ex_cycle (''Pack'', 1) 3 None [] = None \<and>
   resolve_spec (\<lambda>R. 0) 7 ex_cycle (''Pack'', 1) 3 \<lparr>inserted = [], items = Map.empty\<rparr> [] = None"
proof -
  have h: "edge (''Pack'', 1) 3 ''Loop'' \<in> set ex_cycle \<and> edge (''Loop'', 1) 1 ''Loop'' \<in> set ex_cycle \<and>
      edge (''Loop'', 1) 0 ''Loop'' \<in> set ex_cycle \<and> edge (''Loop'', 1) 1 ''Loop'' \<in> set ex_cycle"
    by (simp add: ex_cycle_def)
  note t = resolve_dependencies_recurses_requires
    [where n = 7 and rows = ex_cycle and root = "(''Pack'', 1)" and R = 3 and k = "''Loop''"
       and p = "(''Loop'', 1)" and k' = "''Loop''" and depsObject = None and warned = "[]"]
  from t h have 1: "resolve_dependencies 7 ex_cycle (''Pack'', 1) 3 None [] = None"
    by blast
  from t have "resolve_spec (\<lambda>R. 0) 7 ex_cycle (''Pack'', 1) 3 \<lparr>inserted = [], items = Map.empty\<rparr> [] =
      resolve_dependencies 7 ex_cycle (''Pack'', 1) 3 None []"
    by simp
  from this 1 have 2: "resolve_spec (\<lambda>R. 0) 7 ex_cycle (''Pack'', 1) 3 \<lparr>inserted = [], items = Map.empty\<rparr> [] = None"
    by (rule trans)
  from h 1 2 show ?thesis by blast
qed

lemma ex_catalog_code:
  "resolve_dependencies 4 ex_catalog (''Pack'', 1) 3 None [] =
     Some (\<lparr>inserted = [''shaders'', ''core''],
            items = [''shaders'' \<mapsto> [((''Shaders'', 1), (''Pack'', 1), 3)],
                     ''core'' \<mapsto> [((''Core'', 1), (''Shaders'', 1), 0)]]\<rparr>, [])"
  by (simp add: ex_catalog_def edge_def providers_def get_dependency_info_def numeral_nat
      add_dependency_def getitem_def new_depmap_def)

lemma ex_catalog_spec:
  "resolve_spec (\<lambda>R. R) 4 ex_catalog (''Pack'', 1) 3 \<lparr>inserted = [], items = Map.empty\<rparr> [] =
     Some (\<lparr>inserted = [''shaders'', ''hd''],
            items = [''shaders'' \<mapsto> [((''Shaders'', 1), (''Pack'', 1), 3)],
                     ''hd'' \<mapsto> [((''HD'', 1), (''Shaders'', 1), 3)]]\<rparr>, [])"
  by (simp add: ex_catalog_def edge_def numeral_nat append_triple_def)

text \<open>
  C1, as stated, fails on \<open>ex_catalog\<close> at the kind Recommends (3): the call on Pack records
  Shaders for the keyword shaders and then follows the Requires edge of Shaders to Core,
  where the resolver of the spec, which recurses with the kind of the caller, follows the
  Recommends edge of Shaders to HD.
\<close>

theorem resolve_dependencies_not_same_kind:
  "resolve_dependencies 4 ex_catalog (''Pack'', 1) 3 None [] =
     Some (\<lparr>inserted = [''shaders'', ''core''],
            items = [''shaders'' \<mapsto> [((''Shaders'', 1), (''Pack'', 1), 3)],
                     ''core'' \<mapsto> [((''Core'', 1), (''Shaders'', 1), 0)]]\<rparr>, []) \<and>
   resolve_spec (\<lambda>R. R) 4 ex_catalog (''Pack'', 1) 3 \<lparr>inserted = [], items = Map.empty\<rparr> [] =
     Some (\<lparr>inserted = [''shaders'', ''hd''],
            items = [''shaders'' \<mapsto> [((''Shaders'', 1), (''Pack'', 1), 3)],
                     ''hd'' \<mapsto> [((''HD'', 1), (''Shaders'', 1), 3)]]\<rparr>, []) \<and>
   resolve_dependencies 4 ex_catalog (''Pack'', 1) 3 None [] \<noteq>
     resolve_spec (\<lambda>R. R) 4 ex_catalog (''Pack'', 1) 3 \<lparr>inserted = [], items = Map.empty\<rparr> []"
  using ex_catalog_code ex_catalog_spec by simp

section \<open>Resolution of an acyclic catalog\<close>

lemma candidates_providers: "candidates rows k = map dep_mod (providers rows k)"
  by (simp add: candidates_def providers_def)

lemma required_keywords_info: "get_dependency_info rows a 0 = required_keywords rows a"
  by (simp add: required_keywords_def get_dependency_info_def)

lemma for_each_mono:
  "for_each f xs s = Some r \<Longrightarrow>
   (\<And>x s r. x \<in> set xs \<Longrightarrow> f x s = Some r \<Longrightarrow> g x s = Some r) \<Longrightarrow>
     for_each g xs s = Some r"
proof (induction xs arbitrary: s)
  case Nil
  then show ?case by simp
next
  case (Cons x xs)
  from Cons.prems(1) obtain s1 where s1: "f x s = Some s1" "for_each f xs s1 = Some r"
    by (auto split: option.splits)
  from Cons.prems(2) [of x s s1] s1(1) have "g x s = Some s1" by simp
  moreover from Cons.IH [OF s1(2)] Cons.prems(2) have "for_each g xs s1 = Some r" by simp
  ultimately show ?case by simp
qed

lemma for_each_total:
  "(\<And>x s. x \<in> set xs \<Longrightarrow> f x s \<noteq> None) \<Longrightarrow> for_each f xs s \<noteq> None"
proof (induction xs arbitrary: s)
  case Nil
  then show ?case by simp
next
  case (Cons x xs)
  from Cons.prems [of x s] obtain s1 where "f x s = Some s1" by auto
  with Cons.IH [of s1] Cons.prems show ?case by simp
qed

lemma for_each_invariant:
  assumes "for_each f xs s = Some r" and "P [] s"
    and "\<And>x ys zs s s'. xs = ys @ x # zs \<Longrightarrow> P ys s \<Longrightarrow> f x s = Some s' \<Longrightarrow> P (ys @ [x]) s'"
  shows "P xs r"
proof -
  have "for_each f us s = Some r \<Longrightarrow> P ys s \<Longrightarrow> xs = ys @ us \<Longrightarrow> P (ys @ us) r" for us ys s
  proof (induction us arbitrary: ys s)
    case Nil
    then show ?case by simp
  next
    case (Cons x us)
    from Cons.prems(1) obtain s1 where s1: "f x s = Some s1" "for_each f us s1 = Some r"
      by (auto split: option.splits)
    from assms(3) [OF Cons.prems(3) Cons.prems(2) s1(1)] have "P (ys @ [x]) s1" .
    from Cons.IH [OF s1(2) this] Cons.prems(3) show ?case by simp
  qed
  from this [OF assms(1) assms(2)] show ?thesis by simp
qed

lemma resolve_dependencies_mono:
  "resolve_dependencies n rows a rel d w = Some r \<Longrightarrow> n \<le> n' \<Longrightarrow>
     resolve_dependencies n' rows a rel d w = Some r"
proof (induction n arbitrary: n' a rel d w r)
  case 0
  then show ?case by simp
next
  case (Suc n)
  from Suc.prems(2) obtain k where k: "n' = Suc k" "n \<le> k" by (cases n') auto
  have inner: "for_each
            (\<lambda>entry (depmap, warned).
               resolve_dependencies k rows (dep_mod entry) 0
                 (Some (add_dependency depmap dep (dep_mod entry) rel a)) warned) es s = Some r"
    if "for_each
            (\<lambda>entry (depmap, warned).
               resolve_dependencies n rows (dep_mod entry) 0
                 (Some (add_dependency depmap dep (dep_mod entry) rel a)) warned) es s = Some r"
    for dep es s r
    using that by (rule for_each_mono) (auto intro: Suc.IH [OF _ k(2)])
  from Suc.prems(1) show ?case
    unfolding k(1) resolve_dependencies.simps
    by (rule for_each_mono) (auto intro: inner)
qed

lemma dep_edges_iff:
  "(a, b) \<in> dep_edges rows \<longleftrightarrow>
     (\<exists>k \<in> set (required_keywords rows a). b \<in> set (candidates rows k))"
  by (auto simp: dep_edges_def required_keywords_def)

lemma resolve_dependencies_total:
  assumes "acyclic (dep_edges rows)"
  shows "\<exists>n. \<forall>d w. resolve_dependencies n rows a 0 d w \<noteq> None"
proof -
  have fin: "finite (dep_edges rows)" by (simp add: dep_edges_def)
  from finite_acyclic_wf_converse [OF fin assms] have "wf ((dep_edges rows)\<inverse>)" .
  then show ?thesis
  proof (induction a rule: wf_induct_rule)
    case (less a)
    then have "\<forall>b. \<exists>n. (a, b) \<in> dep_edges rows \<longrightarrow>
        (\<forall>d w. resolve_dependencies n rows b 0 d w \<noteq> None)"
      by auto
    then obtain f where f: "\<And>b d w. (a, b) \<in> dep_edges rows \<Longrightarrow>
        resolve_dependencies (f b) rows b 0 d w \<noteq> None"
      by metis
    define N where "N = Max (f ` {b. (a, b) \<in> dep_edges rows})"
    have "finite {b. (a, b) \<in> dep_edges rows}"
      by (rule finite_subset [of _ "snd ` dep_edges rows"]) (force simp: fin)+
    then have le: "f b \<le> N" if "(a, b) \<in> dep_edges rows" for b
      unfolding N_def using that by (intro Max_ge) auto
    have call: "resolve_dependencies N rows b 0 d w \<noteq> None" if "(a, b) \<in> dep_edges rows" for b d w
    proof -
      from f [OF that, of d w] obtain r where "resolve_dependencies (f b) rows b 0 d w = Some r"
        by auto
      from resolve_dependencies_mono [OF this le [OF that]] show ?thesis by simp
    qed
    have inner: "(case s of (depmap, warned) \<Rightarrow>
          resolve_dependencies N rows (dep_mod e) 0
            (Some (add_dependency depmap k (dep_mod e) 0 a)) warned) \<noteq> None"
      if "k \<in> set (get_dependency_info rows a 0)" "e \<in> set (providers rows k)" for k e s
    proof -
      from that have "(a, dep_mod e) \<in> dep_edges rows"
        by (auto simp: dep_edges_iff required_keywords_info candidates_providers)
      then show ?thesis by (cases s) (simp add: call)
    qed
    have outer: "(case s of (depmap, warned) \<Rightarrow>
          for_each
            (\<lambda>entry (depmap, warned).
               resolve_dependencies N rows (dep_mod entry) 0
                 (Some (add_dependency depmap k (dep_mod entry) 0 a)) warned)
            (providers rows k)
            (depmap, if providers rows k = [] then warned @ [k] else warned)) \<noteq> None"
      if "k \<in> set (get_dependency_info rows a 0)" for k s
    proof (cases s)
      case (Pair m w1)
      show ?thesis
        unfolding Pair prod.case by (rule for_each_total) (rule inner [OF that])
    qed
    have "resolve_dependencies (Suc N) rows a 0 d w \<noteq> None" for d w
      unfolding resolve_dependencies.simps
      by (rule for_each_total) (rule outer)
    then show ?case by blast
  qed
qed

lemma reachable_keywords_unfold:
  "reachable_keywords rows a =
     (\<Union>k \<in> set (required_keywords rows a).
        insert k (\<Union>b \<in> set (candidates rows k). reachable_keywords rows b))"
proof (intro set_eqI iffI)
  fix x
  assume "x \<in> reachable_keywords rows a"
  then obtain c where c: "(a, c) \<in> (dep_edges rows)\<^sup>*" "x \<in> set (required_keywords rows c)"
    unfolding reachable_keywords_def by blast
  from c(1) show "x \<in> (\<Union>k \<in> set (required_keywords rows a).
        insert k (\<Union>b \<in> set (candidates rows k). reachable_keywords rows b))"
  proof (cases rule: converse_rtranclE)
    case base
    with c(2) show ?thesis by blast
  next
    case (step b)
    from step(1) obtain k where k: "k \<in> set (required_keywords rows a)"
      "b \<in> set (candidates rows k)"
      unfolding dep_edges_iff by blast
    from step(2) c(2) have "x \<in> reachable_keywords rows b"
      unfolding reachable_keywords_def by blast
    with k show ?thesis by blast
  qed
next
  fix x
  assume "x \<in> (\<Union>k \<in> set (required_keywords rows a).
        insert k (\<Union>b \<in> set (candidates rows k). reachable_keywords rows b))"
  then obtain k where k: "k \<in> set (required_keywords rows a)"
    and x: "x = k \<or> (\<exists>b \<in> set (candidates rows k). x \<in> reachable_keywords rows b)"
    by blast
  from x show "x \<in> reachable_keywords rows a"
  proof
    assume "x = k"
    with k show ?thesis unfolding reachable_keywords_def by blast
  next
    assume "\<exists>b \<in> set (candidates rows k). x \<in> reachable_keywords rows b"
    then obtain b c where b: "b \<in> set (candidates rows k)"
      "(b, c) \<in> (dep_edges rows)\<^sup>*" "x \<in> set (required_keywords rows c)"
      unfolding reachable_keywords_def by blast
    from k b(1) have "(a, b) \<in> dep_edges rows" unfolding dep_edges_iff by blast
    from this b(2) have "(a, c) \<in> (dep_edges rows)\<^sup>*" by (rule converse_rtrancl_into_rtrancl)
    with b(3) show ?thesis unfolding reachable_keywords_def by blast
  qed
qed

lemma well_recorded_append:
  assumes wr: "well_recorded rows m" and kp: "k \<in> dom (items m) \<or> p = hd (candidates rows k)"
  shows "well_recorded rows (append_triple m k (p, s, 0))"
proof (cases "items m k")
  case None
  with kp have p: "p = hd (candidates rows k)" by auto
  from None wr have "k \<notin> set (inserted m)" by (auto simp: well_recorded_def)
  with wr None p show ?thesis
    by (auto simp: well_recorded_def append_triple_def)
next
  case (Some ts)
  with wr have ts: "ts \<noteq> []" "fst (hd ts) = hd (candidates rows k)" "\<forall>t \<in> set ts. snd (snd t) = 0"
    by (auto simp: well_recorded_def)
  from Some have "k \<in> dom (items m)" by auto
  with wr Some ts show ?thesis
    by (auto simp: well_recorded_def append_triple_def)
qed

lemma resolved_refl: "resolved rows {} s s"
  by (simp add: resolved_def)

lemma resolved_trans:
  "resolved rows S s s1 \<Longrightarrow> resolved rows T s1 s2 \<Longrightarrow> resolved rows (S \<union> T) s s2"
  by (auto simp: resolved_def)

lemma resolved_add_dependency:
  assumes "candidates rows k \<noteq> []" and "k \<in> dom (items m) \<or> p = hd (candidates rows k)"
  shows "resolved rows {k} (m, w) (add_dependency m k p 0 s, w)"
proof -
  have "dom (items (append_triple m k (p, s, 0))) = insert k (dom (items m))"
    by (simp add: append_triple_def)
  with assms show ?thesis
    by (auto simp: resolved_def add_dependency_eq well_recorded_append)
qed

lemma resolve_dependencies_sound:
  "resolve_dependencies n rows a 0 (Some d) w = Some r \<Longrightarrow>
     resolved rows (reachable_keywords rows a) (d, w) r"
proof (induction n arbitrary: a d w r)
  case 0
  then show ?case by simp
next
  case (Suc n)
  let ?inner = "\<lambda>k entry (depmap, warned).
      resolve_dependencies n rows (dep_mod entry) 0
        (Some (add_dependency depmap k (dep_mod entry) 0 a)) warned"
  let ?body = "\<lambda>k (depmap, warned).
      for_each (?inner k) (providers rows k)
        (depmap, if providers rows k = [] then warned @ [k] else warned)"
  let ?KW = "\<lambda>k. insert k (\<Union>b \<in> set (candidates rows k). reachable_keywords rows b)"
  from Suc.prems have run: "for_each ?body (get_dependency_info rows a 0) (d, w) = Some r"
    by simp
  have body: "resolved rows (?KW k) s s'" if b: "?body k s = Some s'" for k s s'
  proof -
    obtain m w1 where s: "s = (m, w1)" by (cases s)
    show ?thesis
    proof (cases "providers rows k = []")
      case True
      with b s have "s' = (m, w1 @ [k])" by simp
      with True s show ?thesis by (auto simp: resolved_def candidates_providers)
    next
      case False
      then have ne: "candidates rows k \<noteq> []" by (simp add: candidates_providers)
      from False b s have inner_run: "for_each (?inner k) (providers rows k) (m, w1) = Some s'"
        by simp
      let ?S = "\<lambda>zs. (if zs = [] then {} else {k}) \<union>
          (\<Union>e \<in> set zs. reachable_keywords rows (dep_mod e))"
      have "resolved rows (?S (providers rows k)) (m, w1) s'"
      proof (rule for_each_invariant [where P = "\<lambda>zs s3. resolved rows (?S zs) (m, w1) s3",
            OF inner_run])
        show "resolved rows (?S []) (m, w1) (m, w1)" by (simp add: resolved_refl)
      next
        fix e zs us s3 s4
        assume split: "providers rows k = zs @ e # us"
          and inv: "resolved rows (?S zs) (m, w1) s3"
          and step: "?inner k e s3 = Some s4"
        obtain m3 w3 where s3: "s3 = (m3, w3)" by (cases s3)
        from step s3 have call: "resolve_dependencies n rows (dep_mod e) 0
            (Some (add_dependency m3 k (dep_mod e) 0 a)) w3 = Some s4"
          by simp
        have cond: "k \<in> dom (items m3) \<or> dep_mod e = hd (candidates rows k)"
        proof (cases "zs = []")
          case True
          with split show ?thesis by (simp add: candidates_providers)
        next
          case False
          with inv s3 ne show ?thesis by (auto simp: resolved_def)
        qed
        from resolved_add_dependency [OF ne cond]
        have "resolved rows {k} (m3, w3) (add_dependency m3 k (dep_mod e) 0 a, w3)" .
        from resolved_trans [OF this Suc.IH [OF call]]
        have "resolved rows ({k} \<union> reachable_keywords rows (dep_mod e)) (m3, w3) s4" .
        from resolved_trans [OF inv [unfolded s3] this]
        have "resolved rows (?S zs \<union> ({k} \<union> reachable_keywords rows (dep_mod e))) (m, w1) s4" .
        moreover have "?S zs \<union> ({k} \<union> reachable_keywords rows (dep_mod e)) = ?S (zs @ [e])"
          by auto
        ultimately show "resolved rows (?S (zs @ [e])) (m, w1) s4" by simp
      qed
      moreover have "?S (providers rows k) = ?KW k"
        using False by (auto simp: candidates_providers)
      ultimately show ?thesis using s by simp
    qed
  qed
  let ?T = "\<lambda>ys. (\<Union>k \<in> set ys. ?KW k)"
  have "resolved rows (?T (get_dependency_info rows a 0)) (d, w) r"
  proof (rule for_each_invariant [where P = "\<lambda>ys s. resolved rows (?T ys) (d, w) s", OF run])
    show "resolved rows (?T []) (d, w) (d, w)" by (simp add: resolved_refl)
  next
    fix k ys zs s s'
    assume inv: "resolved rows (?T ys) (d, w) s" and step: "?body k s = Some s'"
    from resolved_trans [OF inv body [OF step]]
    have "resolved rows (?T ys \<union> ?KW k) (d, w) s'" .
    moreover have "?T ys \<union> ?KW k = ?T (ys @ [k])" by auto
    ultimately show "resolved rows (?T (ys @ [k])) (d, w) s'" by simp
  qed
  then show ?case
    by (simp add: required_keywords_info reachable_keywords_unfold [of rows a])
qed

lemma simple_loop_well_recorded:
  "well_recorded rows m \<Longrightarrow> set ks \<subseteq> dom (items m) \<Longrightarrow>
     simple_loop m ks 0 l = l @ map (\<lambda>k. hd (candidates rows k)) ks"
proof (induction ks arbitrary: l)
  case Nil
  then show ?case by simp
next
  case (Cons k ks)
  from Cons.prems(2) obtain ts where ts: "items m k = Some ts" by auto
  with Cons.prems(1) have p: "ts \<noteq> []" "fst (hd ts) = hd (candidates rows k)"
    "\<forall>t \<in> set ts. snd (snd t) = 0"
    by (auto simp: well_recorded_def)
  from p(3) have "filter (\<lambda>t. snd (snd t) = 0) ts = ts" by (simp add: filter_id_conv)
  with p(1,2) ts have "(case filter_deps (fst (getitem m k)) 0 of [] \<Rightarrow> l | t # ts \<Rightarrow> l @ [fst t]) =
      l @ [hd (candidates rows k)]"
    by (cases ts) (simp_all add: filter_deps_eq getitem_def)
  with Cons show ?case by simp
qed

text \<open>
  C9. In a catalog whose provide/require graph has no cycle, and for an iteration order of
  dictionaries that lists the keys of a dictionary, each once, \<open>get_dependency_mods\<close>
  returns at every sufficient depth, and always the same list: one entry for each keyword
  that is reachable from the root through Requires edges and has a candidate provider, each
  such keyword once, the entry being the first candidate of the keyword. The reachable
  keywords without a candidate are exactly those reported by a warning, and they
  contribute nothing.
\<close>

theorem get_dependency_mods_acyclic:
  assumes "acyclic (dep_edges rows)"
    and "\<And>ks. distinct ks \<Longrightarrow> distinct (dict_order ks) \<and> set (dict_order ks) = set ks"
  shows "\<exists>n keywords record_map diagnostics.
      (\<forall>n' \<ge> n.
         resolve_dependencies n' rows root 0 None [] = Some (record_map, diagnostics) \<and>
         get_dependency_mods dict_order n' rows root =
           Some (map (\<lambda>k. hd (candidates rows k)) keywords)) \<and>
      keywords = dict_order (inserted record_map) \<and>
      distinct keywords \<and>
      set keywords = {k \<in> reachable_keywords rows root. candidates rows k \<noteq> []} \<and>
      set diagnostics = {k \<in> reachable_keywords rows root. candidates rows k = []}"
proof -
  from resolve_dependencies_total [OF assms(1), of root]
  obtain n where "\<forall>d w. resolve_dependencies n rows root 0 d w \<noteq> None" by blast
  then obtain m w where r: "resolve_dependencies n rows root 0 None [] = Some (m, w)"
    by fastforce
  then have "resolve_dependencies n rows root 0 (Some new_depmap) [] = Some (m, w)"
    by (simp add: resolve_dependencies_new)
  from resolve_dependencies_sound [OF this]
  have res: "resolved rows (reachable_keywords rows root) (new_depmap, []) (m, w)" .
  have "well_recorded rows new_depmap" by (simp add: well_recorded_def new_depmap_def)
  with res have wr: "well_recorded rows m"
    and keys: "dom (items m) = {k \<in> reachable_keywords rows root. candidates rows k \<noteq> []}"
    and warn: "set w = {k \<in> reachable_keywords rows root. candidates rows k = []}"
    by (simp_all add: resolved_def new_depmap_def)
  from wr have d: "distinct (inserted m)" and i: "set (inserted m) = dom (items m)"
    by (simp_all add: well_recorded_def)
  from assms(2) [OF d] have od: "distinct (dict_order (inserted m))"
    and os: "set (dict_order (inserted m)) = dom (items m)"
    by (simp_all add: i)
  from os have "simple_get_mods dict_order m 0 =
      map (\<lambda>k. hd (candidates rows k)) (dict_order (inserted m))"
    by (simp add: simple_get_mods_def simple_loop_well_recorded [OF wr])
  then have "\<forall>n' \<ge> n.
      resolve_dependencies n' rows root 0 None [] = Some (m, w) \<and>
      get_dependency_mods dict_order n' rows root =
        Some (map (\<lambda>k. hd (candidates rows k)) (dict_order (inserted m)))"
    using resolve_dependencies_mono [OF r] by (simp add: get_dependency_mods_def)
  with od os keys warn show ?thesis by blast
qed

lemma dep_edges_ex_requires: "dep_edges ex_requires = {((''AddonX'', 1), (''Core'', 1))}"
  by (simp add: dep_edges_def candidates_def ex_requires_def edge_def)

lemma ex_requires_run:
  "resolve_dependencies 2 ex_requires (''AddonX'', 1) 0 None [] =
     Some (\<lparr>inserted = [''core-api''],
            items = [''core-api'' \<mapsto> [((''Core'', 1), (''AddonX'', 1), 0)]]\<rparr>, [''sound''])"
  by (simp add: ex_requires_def edge_def providers_def get_dependency_info_def numeral_nat
      add_dependency_def getitem_def new_depmap_def)

theorem get_dependency_mods_acyclic_witness:
  "acyclic (dep_edges ex_requires) \<and>
   (\<forall>ks. distinct (small_dict_order ks) = distinct ks \<and> set (small_dict_order ks) = set ks) \<and>
   get_dependency_mods small_dict_order 2 ex_requires (''AddonX'', 1) = Some [(''Core'', 1)] \<and>
   (\<exists>n keywords record_map diagnostics.
      (\<forall>n' \<ge> n.
         resolve_dependencies n' ex_requires (''AddonX'', 1) 0 None [] =
           Some (record_map, diagnostics) \<and>
         get_dependency_mods small_dict_order n' ex_requires (''AddonX'', 1) =
           Some (map (\<lambda>k. hd (candidates ex_requires k)) keywords)) \<and>
      keywords = small_dict_order (inserted record_map) \<and>
      distinct keywords \<and>
      set keywords =
        {k \<in> reachable_keywords ex_requires (''AddonX'', 1). candidates ex_requires k \<noteq> []} \<and>
      set diagnostics =
        {k \<in> reachable_keywords ex_requires (''AddonX'', 1). candidates ex_requires k = []})"
proof -
  have "acyclic ({} :: (entry_key \<times> entry_key) set)"
    by (simp add: acyclic_def)
  then have a: "acyclic (dep_edges ex_requires)"
    by (simp add: dep_edges_ex_requires acyclic_insert)
  have o: "distinct (small_dict_order ks) = distinct ks \<and> set (small_dict_order ks) = set ks"
    for ks
    by (simp add: small_dict_order_def)
  then have o': "distinct ks \<Longrightarrow> distinct (small_dict_order ks) \<and> set (small_dict_order ks) = set ks"
    for ks
    by simp
  have g: "get_dependency_mods small_dict_order 2 ex_requires (''AddonX'', 1) = Some [(''Core'', 1)]"
    unfolding get_dependency_mods_def ex_requires_run
    by (simp add: simple_get_mods_def small_dict_order_def getitem_def filter_deps_def)
  from get_dependency_mods_acyclic [OF a o', of "(''AddonX'', 1)"] a o g
  show ?thesis by blast
qed

end
